theory Spec2Isabelle
  imports Complex_Main "HOL-Library.FSet" "HOL-Library.While_Combinator"
begin

section \<open>The sensor of STLib (src/STLib/sensor.py)\<close>

text \<open>
  The pixel buffer and every other numpy array of the sensor is a list of rows.
  Electron counts, lengths and fluxes are reals: the model is the arithmetic of the
  source read over the real numbers, with every physical quantity given in the unit
  the source converts it to (microns, seconds, electrons, digital counts).

  \<^verbatim>\<open>np.random.poisson\<close> reads and advances numpy's global generator. The generator
  state is an explicit value of an arbitrary type \<open>'g\<close>, and the sampler itself is a
  parameter \<open>poisson :: 'g \<Rightarrow> real \<Rightarrow> nat \<times> 'g\<close> of every operation that draws: given
  the state and a mean it returns one count, a natural number, and the next state.

  A Python exception leaves the sensor as mutated so far. An operation that can raise
  returns \<open>Inl (e, s)\<close>, the error together with the sensor at the moment of the raise,
  or \<open>Inr\<close> of its normal result.
\<close>

subsection \<open>Errors\<close>

datatype error =
    HotPixelsShape      \<comment> \<open>ValueError: hot_pixels must be None or of shape (height_px, width_px)\<close>
  | BiasShape           \<comment> \<open>ValueError \<open>_ERR_bias\<close>\<close>
  | BloomNotSubset      \<comment> \<open>ValueError: bloom must be a subset of the four directions\<close>
  | NegativeDimensions  \<comment> \<open>ValueError of \<open>np.zeros\<close> on a negative dimension\<close>
  | PoissonNegativeLam  \<comment> \<open>ValueError of \<open>np.random.poisson\<close>: lam < 0\<close>
  | BroadcastMismatch   \<comment> \<open>ValueError of numpy: shapes cannot be broadcast together\<close>
  | IntOfNaN            \<comment> \<open>ValueError of \<open>int(nan)\<close>\<close>
  | IntOfInfinity       \<comment> \<open>OverflowError of \<open>int(inf)\<close>\<close>
  | IndexOutOfBounds    \<comment> \<open>IndexError of an array index outside the array\<close>

subsection \<open>Arrays\<close>

type_synonym grid = "real list list"

text \<open>What \<^verbatim>\<open>np.asarray\<close> makes of an array-like argument, by number of dimensions.\<close>

datatype 'a array_like =
    A0 'a                 \<comment> \<open>a scalar, \<open>ndim = 0\<close>\<close>
  | A1 "'a list"          \<comment> \<open>\<open>ndim = 1\<close>\<close>
  | A2 "'a list list"     \<comment> \<open>\<open>ndim = 2\<close>, a list of rows\<close>
  | AN                    \<comment> \<open>any array of three or more dimensions\<close>

definition is_shape :: "'a list list \<Rightarrow> nat \<Rightarrow> nat \<Rightarrow> bool" where
  "is_shape a h w \<longleftrightarrow> length a = h \<and> list_all (\<lambda>row. length row = w) a"

definition zeros :: "nat \<Rightarrow> nat \<Rightarrow> grid" where
  "zeros h w = replicate h (replicate w 0)"

definition grid_add :: "grid \<Rightarrow> grid \<Rightarrow> grid" where
  "grid_add a b = map2 (map2 (+)) a b"

definition grid_sub :: "grid \<Rightarrow> grid \<Rightarrow> grid" where
  "grid_sub a b = map2 (map2 (-)) a b"

definition electrons :: "nat list list \<Rightarrow> grid" where
  "electrons d = map (map real) d"

text \<open>numpy broadcasting of one axis: an axis of length 1 is repeated.\<close>

definition stretch :: "'a list \<Rightarrow> nat \<Rightarrow> 'a list" where
  "stretch xs n = (if length xs = 1 then replicate n (hd xs) else xs)"

fun broadcast_to :: "'a array_like \<Rightarrow> nat \<Rightarrow> nat \<Rightarrow> error + 'a list list" where
  "broadcast_to (A0 v) h w = Inr (replicate h (replicate w v))"
| "broadcast_to (A1 xs) h w =
     (if length xs = w \<or> length xs = 1 then Inr (replicate h (stretch xs w))
      else Inl BroadcastMismatch)"
| "broadcast_to (A2 rows) h w =
     (if is_shape rows h w \<or> is_shape rows 1 w \<or> is_shape rows h 1 \<or> is_shape rows 1 1
      then Inr (stretch (map (\<lambda>r. stretch r w) rows) h)
      else Inl BroadcastMismatch)"
| "broadcast_to AN h w = Inl BroadcastMismatch"

subsection \<open>Poisson draws\<close>

text \<open>
  \<^verbatim>\<open>np.random.poisson(lam)\<close> on an array: every mean is checked first (a negative
  one raises before anything is drawn), then one count is drawn per element in
  row-major order.
\<close>

fun poisson_list :: "('g \<Rightarrow> real \<Rightarrow> nat \<times> 'g) \<Rightarrow> 'g \<Rightarrow> real list \<Rightarrow> nat list \<times> 'g" where
  "poisson_list poisson g [] = ([], g)"
| "poisson_list poisson g (lam # lams) =
     (case poisson g lam of (d, g1) \<Rightarrow>
        (case poisson_list poisson g1 lams of (ds, g2) \<Rightarrow> (d # ds, g2)))"

fun poisson_rows :: "('g \<Rightarrow> real \<Rightarrow> nat \<times> 'g) \<Rightarrow> 'g \<Rightarrow> grid \<Rightarrow> nat list list \<times> 'g" where
  "poisson_rows poisson g [] = ([], g)"
| "poisson_rows poisson g (row # rows) =
     (case poisson_list poisson g row of (ds, g1) \<Rightarrow>
        (case poisson_rows poisson g1 rows of (dss, g2) \<Rightarrow> (ds # dss, g2)))"

definition np_poisson_list ::
  "('g \<Rightarrow> real \<Rightarrow> nat \<times> 'g) \<Rightarrow> 'g \<Rightarrow> real list \<Rightarrow> error + nat list \<times> 'g" where
  "np_poisson_list poisson g lams =
     (if list_ex (\<lambda>lam. lam < 0) lams then Inl PoissonNegativeLam
      else Inr (poisson_list poisson g lams))"

definition np_poisson ::
  "('g \<Rightarrow> real \<Rightarrow> nat \<times> 'g) \<Rightarrow> 'g \<Rightarrow> grid \<Rightarrow> error + nat list list \<times> 'g" where
  "np_poisson poisson g lam =
     (if list_ex (list_ex (\<lambda>l. l < 0)) lam then Inl PoissonNegativeLam
      else Inr (poisson_rows poisson g lam))"

text \<open>
  \<^verbatim>\<open>np.random.poisson(lam, (h, w))\<close>: the means are checked as they are given (a scalar
  whatever the size, an array before it is broadcast), then broadcast to the size, which
  raises when the shapes do not fit, then one count is drawn per element of the output.
  Nothing is known of the entries of an array of three or more dimensions; it does not
  broadcast to the size.
\<close>

fun array_like_ex :: "('a \<Rightarrow> bool) \<Rightarrow> 'a array_like \<Rightarrow> bool" where
  "array_like_ex P (A0 v) = P v"
| "array_like_ex P (A1 xs) = list_ex P xs"
| "array_like_ex P (A2 rows) = list_ex (list_ex P) rows"
| "array_like_ex P AN = False"

definition np_poisson_size ::
  "('g \<Rightarrow> real \<Rightarrow> nat \<times> 'g) \<Rightarrow> 'g \<Rightarrow> real array_like \<Rightarrow> nat \<Rightarrow> nat \<Rightarrow>
   error + nat list list \<times> 'g" where
  "np_poisson_size poisson g lam h w =
     (if array_like_ex (\<lambda>l. l < 0) lam then Inl PoissonNegativeLam
      else case broadcast_to lam h w of
             Inl e \<Rightarrow> Inl e
           | Inr lams \<Rightarrow> Inr (poisson_rows poisson g lams))"

subsection \<open>The sensor and the lens\<close>

text \<open>
  After \<^verbatim>\<open>__init__\<close> the bias is either the 0-dimensional array of a scalar or an
  array of shape (height_px, width_px).
\<close>

datatype bias_t = BiasScalar int | BiasGrid "int list list"

record sensor =
  width_px :: nat
  height_px :: nat
  pixels :: grid
  px_len_x :: real
  px_len_y :: real
  px_area :: real
  px_pitch_x :: real
  px_pitch_y :: real
  width :: real
  height :: real
  quantum_eff :: real
  dark_current :: "real \<Rightarrow> real"
  hot_pixels :: grid
  read_noise :: real
  gain :: real
  bias :: bias_t
  full_well :: real
  adc_limit :: int
  bloom :: "string fset"
  readout_time :: real

text \<open>
  The lens is not part of these sources. The sensor reads five attributes of it; the
  point-spread function is applied element by element to the sample arrays.
\<close>

record lens =
  area :: real
  psf :: "real \<Rightarrow> real \<Rightarrow> real"
  psf_bounds_x :: real
  psf_bounds_y :: real
  psf_resolution :: real

subsection \<open>\<^verbatim>\<open>Sensor.__init__\<close>\<close>

text \<open>\<^verbatim>\<open>px_len\<close> and \<^verbatim>\<open>px_pitch\<close> are a number or a pair of numbers.\<close>

datatype size_arg = Number real | Pair real real

fun size_x :: "size_arg \<Rightarrow> real" where
  "size_x (Pair a b) = a"
| "size_x (Number a) = a"

fun size_y :: "size_arg \<Rightarrow> real" where
  "size_y (Pair a b) = b"
| "size_y (Number a) = a"

text \<open>Lines 72 to 88: the bias argument after \<^verbatim>\<open>np.asanyarray(bias, dtype=int)\<close>.\<close>

fun init_bias :: "nat \<Rightarrow> nat \<Rightarrow> int array_like \<Rightarrow> error + bias_t" where
  "init_bias w h (A0 b) = Inr (BiasScalar b)"
| "init_bias w h (A1 bs) =
     (let u = (if length bs = 1 then () else ()) \<comment> \<open>\<^verbatim>\<open>if len(bias) == 1: pass\<close>, then falls through\<close>
      in if length bs = w then Inr (BiasGrid (replicate h bs)) else Inl BiasShape)"
| "init_bias w h (A2 rows) =
     (if \<not> is_shape rows h w then Inl BiasShape else Inr (BiasGrid rows))"
| "init_bias w h AN = Inl BiasShape"

definition init_hot_pixels :: "nat \<Rightarrow> nat \<Rightarrow> real array_like option \<Rightarrow> error + grid" where
  "init_hot_pixels w h hp =
     (case hp of
        None \<Rightarrow> Inr (replicate h (replicate w 1))
      | Some (A2 rows) \<Rightarrow> if \<not> is_shape rows h w then Inl HotPixelsShape else Inr rows
      | Some _ \<Rightarrow> Inl HotPixelsShape)"

definition bloom_directions :: "string fset" where
  "bloom_directions = {|''+x'', ''-x'', ''+y'', ''-y''|}"

definition init ::
  "int \<Rightarrow> int \<Rightarrow> size_arg \<Rightarrow> size_arg \<Rightarrow> real \<Rightarrow> (real \<Rightarrow> real) \<Rightarrow> real array_like option \<Rightarrow>
   real \<Rightarrow> real \<Rightarrow> int array_like \<Rightarrow> real \<Rightarrow> int \<Rightarrow> string fset \<Rightarrow> real \<Rightarrow> error + sensor" where
  "init width_px_arg height_px_arg px_len px_pitch quantum_efficiency dark_current_arg
        hot_pixels_arg read_noise_arg gain_arg bias_arg full_well_capacity adc_limit_arg
        bloom_arg readout_time_arg =
     (if width_px_arg < 0 \<or> height_px_arg < 0 then Inl NegativeDimensions
      else
        let w = nat width_px_arg; h = nat height_px_arg in
        case init_hot_pixels w h hot_pixels_arg of
          Inl e \<Rightarrow> Inl e
        | Inr hp \<Rightarrow>
           (case init_bias w h bias_arg of
              Inl e \<Rightarrow> Inl e
            | Inr b \<Rightarrow>
               if \<not> bloom_arg |\<subseteq>| bloom_directions then Inl BloomNotSubset
               else Inr \<lparr>
                 width_px = w,
                 height_px = h,
                 pixels = zeros h w,
                 px_len_x = size_x px_len,
                 px_len_y = size_y px_len,
                 px_area = size_x px_len * size_y px_len,
                 px_pitch_x = size_x px_pitch,
                 px_pitch_y = size_y px_pitch,
                 width = (real w + 1) * size_x px_pitch - size_x px_len,
                 height = (real h + 1) * size_y px_pitch - size_y px_len,
                 quantum_eff = quantum_efficiency,
                 dark_current = dark_current_arg,
                 hot_pixels = hp,
                 read_noise = read_noise_arg,
                 gain = gain_arg,
                 bias = b,
                 full_well = full_well_capacity,
                 adc_limit = adc_limit_arg,
                 bloom = bloom_arg,
                 readout_time = readout_time_arg \<rparr>))"

subsection \<open>\<^verbatim>\<open>Sensor.clear\<close>\<close>

definition clear :: "sensor \<Rightarrow> sensor" where
  "clear s = s\<lparr>pixels := zeros (height_px s) (width_px s)\<rparr>"

subsection \<open>\<^verbatim>\<open>Sensor._applyBloom\<close>\<close>

text \<open>
  The 3 by 3 filter, by row and column. \<^verbatim>\<open>len(self.bloom)\<close> is the number of elements
  of the set.
\<close>

definition conv_filter :: "sensor \<Rightarrow> nat \<Rightarrow> nat \<Rightarrow> real" where
  "conv_filter s u v =
     (let frac = 1 / real (fcard (bloom s)) in
      if u = 1 \<and> v = 0 then (if ''-x'' |\<in>| bloom s then frac else 0)
      else if u = 1 \<and> v = 2 then (if ''+x'' |\<in>| bloom s then frac else 0)
      else if u = 0 \<and> v = 1 then (if ''-y'' |\<in>| bloom s then frac else 0)
      else if u = 2 \<and> v = 1 then (if ''+y'' |\<in>| bloom s then frac else 0)
      else 0)"

text \<open>An array read with zero fill outside its bounds.\<close>

definition at0 :: "grid \<Rightarrow> int \<Rightarrow> int \<Rightarrow> real" where
  "at0 a i j =
     (if 0 \<le> i \<and> i < int (length a) \<and> 0 \<le> j \<and> j < int (length (a ! nat i))
      then a ! nat i ! nat j else 0)"

text \<open>
  \<^verbatim>\<open>convolve2d(a, K, mode='same', boundary='fill', fillvalue=0)\<close> with a 3 by 3 kernel:
  the output has the shape of \<open>a\<close>, and
  \<open>out[i][j] = \<Sum> u v. K[u][v] * a[i + 1 - u][j + 1 - v]\<close>.
\<close>

definition convolve2d_same :: "grid \<Rightarrow> (nat \<Rightarrow> nat \<Rightarrow> real) \<Rightarrow> grid" where
  "convolve2d_same a K =
     map (\<lambda>i. map (\<lambda>j. \<Sum>u\<leftarrow>[0..<3]. \<Sum>v\<leftarrow>[0..<3].
                         K u v * at0 a (int i + 1 - int u) (int j + 1 - int v))
                [0..<length (a ! i)])
         [0..<length a]"

definition excess :: "sensor \<Rightarrow> grid \<Rightarrow> grid" where
  "excess s px = map (map (\<lambda>p. max 0 (p - full_well s))) px"

definition any_excess :: "sensor \<Rightarrow> grid \<Rightarrow> bool" where
  "any_excess s px = list_ex (list_ex (\<lambda>e. e > 0)) (excess s px)"

text \<open>One pass through the body of the \<^verbatim>\<open>while True\<close> loop, after the \<^verbatim>\<open>break\<close> test.\<close>

definition bloom_body :: "sensor \<Rightarrow> grid \<Rightarrow> grid" where
  "bloom_body s px =
     grid_add (grid_sub px (excess s px))
       (map (map (\<lambda>x. of_int \<lfloor>x\<rfloor>)) (convolve2d_same (excess s px) (conv_filter s)))"

text \<open>The loop: \<open>None\<close> when it never reaches the \<^verbatim>\<open>break\<close>.\<close>

definition bloom_loop :: "sensor \<Rightarrow> grid \<Rightarrow> grid option" where
  "bloom_loop s px = while_option (any_excess s) (bloom_body s) px"

definition applyBloom :: "sensor \<Rightarrow> sensor option" where
  "applyBloom s =
     (if bloom s = {||} then Some (s\<lparr>pixels := map (map (\<lambda>p. min p (full_well s))) (pixels s)\<rparr>)
      else map_option (\<lambda>px. s\<lparr>pixels := px\<rparr>) (bloom_loop s (pixels s)))"

subsection \<open>\<^verbatim>\<open>Sensor.readout\<close>\<close>

definition add_bias :: "bias_t \<Rightarrow> grid \<Rightarrow> grid" where
  "add_bias b a =
     (case b of
        BiasScalar c \<Rightarrow> map (map (\<lambda>x. x + of_int c)) a
      | BiasGrid rows \<Rightarrow> map2 (map2 (\<lambda>x c. x + of_int c)) a rows)"

definition digitize :: "sensor \<Rightarrow> grid" where
  "digitize s =
     map (map (\<lambda>x. min x (of_int (adc_limit s))))
       (add_bias (bias s) (map (map (\<lambda>p. of_int \<lfloor>p * gain s\<rfloor>)) (pixels s)))"

definition readout ::
  "('g \<Rightarrow> real \<Rightarrow> nat \<times> 'g) \<Rightarrow> sensor \<Rightarrow> 'g \<Rightarrow> error \<times> sensor + grid \<times> sensor \<times> 'g" where
  "readout poisson s g =
     (case np_poisson_size poisson g (A0 (read_noise s)) (height_px s) (width_px s) of
        Inl e \<Rightarrow> Inl (e, s)
      | Inr (d, g1) \<Rightarrow>
          let s1 = s\<lparr>pixels := grid_add (pixels s) (electrons d)\<rparr>
          in Inr (digitize s1, s1, g1))"

subsection \<open>\<^verbatim>\<open>Sensor._applyPSF\<close>\<close>

text \<open>
  \<^verbatim>\<open>int(np.ceil(a / b))\<close>: a zero divisor gives nan or an infinity, which \<^verbatim>\<open>int\<close>
  refuses.
\<close>

definition int_ceil_ratio :: "real \<Rightarrow> real \<Rightarrow> error + int" where
  "int_ceil_ratio a b =
     (if b = 0 then (if a = 0 then Inl IntOfNaN else Inl IntOfInfinity)
      else Inr \<lceil>a / b\<rceil>)"

text \<open>Lines 158 and 159: \<^verbatim>\<open>max(2, int(np.ceil(px_len / lens.psf_resolution)))\<close>.\<close>

definition sample_count :: "real \<Rightarrow> real \<Rightarrow> error + int" where
  "sample_count px_len res =
     (case int_ceil_ratio px_len res of Inl e \<Rightarrow> Inl e | Inr n \<Rightarrow> Inr (max 2 n))"

text \<open>Lines 160 and 161: \<^verbatim>\<open>px_len / (n - 1)\<close>.\<close>

definition sample_step :: "real \<Rightarrow> int \<Rightarrow> real" where
  "sample_step px_len n = px_len / of_int (n - 1)"

text \<open>\<^verbatim>\<open>np.round\<close> rounds a half to the even neighbour.\<close>

definition np_round :: "real \<Rightarrow> int" where
  "np_round x =
     (let f = \<lfloor>x\<rfloor>; d = x - of_int f
      in if d < 1 / 2 then f else if d > 1 / 2 then f + 1 else if even f then f else f + 1)"

text \<open>
  Lines 172 and 173: \<^verbatim>\<open>int(np.round(x / denom * n))\<close>, where \<open>denom\<close> is
  \<^verbatim>\<open>self.width - 2*self.px_pitch_x + self.px_len_x\<close>.
\<close>

definition center_index :: "real \<Rightarrow> real \<Rightarrow> nat \<Rightarrow> error + int" where
  "center_index x denom n =
     (if denom = 0 then (if x = 0 \<or> n = 0 then Inl IntOfNaN else Inl IntOfInfinity)
      else Inr (np_round (x / denom * real n)))"

text \<open>\<^verbatim>\<open>np.arange(max(i - b, 0), min(i + b + 1, n))\<close>.\<close>

definition window :: "int \<Rightarrow> int \<Rightarrow> nat \<Rightarrow> nat list" where
  "window i b n = map nat [max (i - b) 0 .. min (i + b + 1) (int n) - 1]"

definition linspace :: "real \<Rightarrow> real \<Rightarrow> nat \<Rightarrow> real list" where
  "linspace lb ub n = map (\<lambda>k. lb + real k * ((ub - lb) / real (n - 1))) [0..<n]"

definition trapezoid :: "real list \<Rightarrow> real \<Rightarrow> real" where
  "trapezoid ys d = (\<Sum>k\<leftarrow>[0..<length ys - 1]. d * (ys ! k + ys ! (k + 1)) / 2)"

text \<open>
  Lines 183 to 195 for the pixel in row \<open>r\<close> and column \<open>c\<close>: the point-spread function
  sampled on \<open>ny\<close> by \<open>nx\<close> points of the pixel, relative to the source at \<open>(x, y)\<close>,
  integrated over \<open>y\<close> and then over \<open>x\<close>.
\<close>

definition pixel_integral ::
  "lens \<Rightarrow> sensor \<Rightarrow> nat \<Rightarrow> nat \<Rightarrow> real \<Rightarrow> real \<Rightarrow> real \<Rightarrow> real \<Rightarrow> nat \<Rightarrow> nat \<Rightarrow> real" where
  "pixel_integral lens s nx ny dx dy x y r c =
     (let x_lb = (px_pitch_x s * real c - px_len_x s) - x;
          x_ub = px_pitch_x s * real c - x;
          y_lb = (px_pitch_y s * real r - px_len_y s) - y;
          y_ub = px_pitch_y s * real r - y;
          xs = linspace x_lb x_ub nx;
          ys = linspace y_lb y_ub ny
      in trapezoid (map (\<lambda>xv. trapezoid (map (\<lambda>yv. psf lens xv yv) ys) dy) xs) dx)"

definition in_bounds :: "grid \<Rightarrow> nat \<times> nat \<Rightarrow> bool" where
  "in_bounds px rc = (fst rc < length px \<and> snd rc < length (px ! fst rc))"

definition add_at :: "(nat \<times> nat) \<times> nat \<Rightarrow> grid \<Rightarrow> grid" where
  "add_at rcd px =
     (case rcd of ((r, c), d) \<Rightarrow> px[r := (px ! r)[c := px ! r ! c + real d]])"

text \<open>The body of the loop over the sources, lines 172 to 196.\<close>

definition deposit ::
  "('g \<Rightarrow> real \<Rightarrow> nat \<times> 'g) \<Rightarrow> lens \<Rightarrow> int \<Rightarrow> int \<Rightarrow> int \<Rightarrow> int \<Rightarrow> sensor \<Rightarrow> 'g \<Rightarrow>
   real \<times> real \<times> real \<Rightarrow> error \<times> sensor + sensor \<times> 'g" where
  "deposit poisson lens nx ny px_bounds_x px_bounds_y s g src =
     (case src of (x, y, i) \<Rightarrow>
       (case center_index x (width s - 2 * px_pitch_x s + px_len_x s) (width_px s) of
          Inl e \<Rightarrow> Inl (e, s)
        | Inr xi \<Rightarrow>
         (case center_index y (height s - 2 * px_pitch_y s + px_len_y s) (height_px s) of
            Inl e \<Rightarrow> Inl (e, s)
          | Inr yi \<Rightarrow>
             (let idx = List.product (window yi px_bounds_y (height_px s))
                                    (window xi px_bounds_x (width_px s));
                  dx = sample_step (px_len_x s) nx;
                  dy = sample_step (px_len_y s) ny;
                  count = map (\<lambda>(r, c). i * pixel_integral lens s (nat nx) (nat ny) dx dy x y r c)
                              idx
              in if \<not> list_all (in_bounds (pixels s)) idx then Inl (IndexOutOfBounds, s)
                 else (case np_poisson_list poisson g count of
                         Inl e \<Rightarrow> Inl (e, s)
                       | Inr (d, g1) \<Rightarrow>
                           Inr (s\<lparr>pixels := fold add_at (zip idx d) (pixels s)\<rparr>, g1))))))"

fun deposit_all ::
  "('g \<Rightarrow> real \<Rightarrow> nat \<times> 'g) \<Rightarrow> lens \<Rightarrow> int \<Rightarrow> int \<Rightarrow> int \<Rightarrow> int \<Rightarrow> sensor \<Rightarrow> 'g \<Rightarrow>
   (real \<times> real \<times> real) list \<Rightarrow> error \<times> sensor + sensor \<times> 'g" where
  "deposit_all poisson lens nx ny bx by s g [] = Inr (s, g)"
| "deposit_all poisson lens nx ny bx by s g (src # srcs) =
     (case deposit poisson lens nx ny bx by s g src of
        Inl e \<Rightarrow> Inl e
      | Inr (s1, g1) \<Rightarrow> deposit_all poisson lens nx ny bx by s1 g1 srcs)"

definition applyPSF ::
  "('g \<Rightarrow> real \<Rightarrow> nat \<times> 'g) \<Rightarrow> lens \<Rightarrow> sensor \<Rightarrow> 'g \<Rightarrow> real list \<Rightarrow> real list \<Rightarrow> real list \<Rightarrow>
   error \<times> sensor + sensor \<times> 'g" where
  "applyPSF poisson lens s g xcoords ycoords electron_dose =
     (case sample_count (px_len_x s) (psf_resolution lens) of
        Inl e \<Rightarrow> Inl (e, s)
      | Inr nx \<Rightarrow>
       (case sample_count (px_len_y s) (psf_resolution lens) of
          Inl e \<Rightarrow> Inl (e, s)
        | Inr ny \<Rightarrow>
         (case int_ceil_ratio (psf_bounds_x lens) (px_len_x s) of
            Inl e \<Rightarrow> Inl (e, s)
          | Inr px_bounds_x \<Rightarrow>
           (case int_ceil_ratio (psf_bounds_y lens) (px_len_y s) of
              Inl e \<Rightarrow> Inl (e, s)
            | Inr px_bounds_y \<Rightarrow>
                deposit_all poisson lens nx ny px_bounds_x px_bounds_y s g
                  (zip xcoords (zip ycoords electron_dose))))))"

subsection \<open>\<^verbatim>\<open>Sensor.accumulate\<close>\<close>

text \<open>
  The dark current is given in pA per square centimetre. With the equivalence of the
  source, 1 pA per square metre = 6.28e6 electrons/s per square metre, that is
  6.28e10 electrons/s per square metre, or 0.0628 electrons/s per square micron.
\<close>

definition dark_lambda :: "sensor \<Rightarrow> real \<Rightarrow> real \<Rightarrow> grid" where
  "dark_lambda s exposure_time temperature =
     (let dark_count = dark_current s temperature * (628 / 10000) * exposure_time * px_area s
      in map (map (\<lambda>hp. hp * dark_count)) (hot_pixels s))"

text \<open>Lines 116 to 118, the source flux.\<close>

definition source_stage ::
  "('g \<Rightarrow> real \<Rightarrow> nat \<times> 'g) \<Rightarrow> sensor \<Rightarrow> 'g \<Rightarrow> lens \<Rightarrow> real \<Rightarrow> real list \<Rightarrow> real list \<Rightarrow>
   real list \<Rightarrow> error \<times> sensor + sensor \<times> 'g" where
  "source_stage poisson s g lens exposure_time xcoords ycoords photon_flux_density =
     (if length photon_flux_density > 0
      then applyPSF poisson lens s g xcoords ycoords
             (map (\<lambda>f. f * exposure_time * quantum_eff s * area lens) photon_flux_density)
      else Inr (s, g))"

text \<open>Lines 122 and 123, the sky background flux.\<close>

definition background_stage ::
  "('g \<Rightarrow> real \<Rightarrow> nat \<times> 'g) \<Rightarrow> sensor \<Rightarrow> 'g \<Rightarrow> lens \<Rightarrow> real \<Rightarrow> real array_like \<Rightarrow>
   error \<times> sensor + sensor \<times> 'g" where
  "background_stage poisson s g lens exposure_time background_flux =
     (let bg_electron_dose =
            map_array_like (\<lambda>b. b * exposure_time * area lens) background_flux
      in case np_poisson_size poisson g bg_electron_dose (height_px s) (width_px s) of
           Inl e \<Rightarrow> Inl (e, s)
         | Inr (d, g1) \<Rightarrow> Inr (s\<lparr>pixels := grid_add (pixels s) (electrons d)\<rparr>, g1))"

text \<open>Lines 127 to 130, the dark current.\<close>

definition dark_stage ::
  "('g \<Rightarrow> real \<Rightarrow> nat \<times> 'g) \<Rightarrow> sensor \<Rightarrow> 'g \<Rightarrow> real \<Rightarrow> real \<Rightarrow> error \<times> sensor + sensor \<times> 'g" where
  "dark_stage poisson s g exposure_time temperature =
     (case np_poisson poisson g (dark_lambda s exposure_time temperature) of
        Inl e \<Rightarrow> Inl (e, s)
      | Inr (d, g1) \<Rightarrow> Inr (s\<lparr>pixels := grid_add (pixels s) (electrons d)\<rparr>, g1))"

text \<open>
  The result is \<open>None\<close> when the bloom loop never ends, \<open>Some (Inl (e, s'))\<close> when
  the call raises \<open>e\<close> with the sensor left as \<open>s'\<close>, and \<open>Some (Inr (s', g'))\<close> when it
  returns.
\<close>

definition accumulate ::
  "('g \<Rightarrow> real \<Rightarrow> nat \<times> 'g) \<Rightarrow> sensor \<Rightarrow> 'g \<Rightarrow> lens \<Rightarrow> real \<Rightarrow> real \<Rightarrow> real list \<Rightarrow> real list \<Rightarrow>
   real list \<Rightarrow> real array_like \<Rightarrow> (error \<times> sensor + sensor \<times> 'g) option" where
  "accumulate poisson s g lens exposure_time temperature xcoords ycoords
              photon_flux_density background_flux =
     (case source_stage poisson s g lens exposure_time xcoords ycoords photon_flux_density of
        Inl e \<Rightarrow> Some (Inl e)
      | Inr (s1, g1) \<Rightarrow>
         (case background_stage poisson s1 g1 lens exposure_time background_flux of
            Inl e \<Rightarrow> Some (Inl e)
          | Inr (s2, g2) \<Rightarrow>
             (case dark_stage poisson s2 g2 exposure_time temperature of
                Inl e \<Rightarrow> Some (Inl e)
              | Inr (s3, g3) \<Rightarrow> map_option (\<lambda>s4. Inr (s4, g3)) (applyBloom s3))))"

section \<open>Properties\<close>

subsection \<open>Vocabulary of the statements\<close>

definition nonneg :: "grid \<Rightarrow> bool" where
  "nonneg px = list_all (list_all (\<lambda>p. 0 \<le> p)) px"

definition at_most :: "real \<Rightarrow> grid \<Rightarrow> bool" where
  "at_most m px = list_all (list_all (\<lambda>p. p \<le> m)) px"

definition bias_at :: "bias_t \<Rightarrow> nat \<Rightarrow> nat \<Rightarrow> int" where
  "bias_at b i j = (case b of BiasScalar c \<Rightarrow> c | BiasGrid rows \<Rightarrow> rows ! i ! j)"

text \<open>
  A numpy array is rectangular; the arrays of a sensor built by \<^verbatim>\<open>__init__\<close> have the
  shape (height_px, width_px).
\<close>

definition well_shaped :: "sensor \<Rightarrow> bool" where
  "well_shaped s \<longleftrightarrow>
     is_shape (pixels s) (height_px s) (width_px s) \<and>
     is_shape (hot_pixels s) (height_px s) (width_px s) \<and>
     (case bias s of BiasScalar c \<Rightarrow> True
                   | BiasGrid rows \<Rightarrow> is_shape rows (height_px s) (width_px s))"

text \<open>The sensor an operation ends with, whether it returns or raises.\<close>

definition sensor_after :: "error \<times> sensor + sensor \<times> 'g \<Rightarrow> sensor" where
  "sensor_after r = (case r of Inl (e, s) \<Rightarrow> s | Inr (s, g) \<Rightarrow> s)"

text \<open>
  One exposure as the callers run it: \<^verbatim>\<open>clear\<close>, \<^verbatim>\<open>accumulate\<close>, \<^verbatim>\<open>readout\<close>. The
  result is the digital image with the sensor and generator left behind, or the error
  raised on the way; \<open>None\<close> when the bloom loop never ends.
\<close>

definition exposure ::
  "('g \<Rightarrow> real \<Rightarrow> nat \<times> 'g) \<Rightarrow> sensor \<Rightarrow> 'g \<Rightarrow> lens \<Rightarrow> real \<Rightarrow> real \<Rightarrow> real list \<Rightarrow> real list \<Rightarrow>
   real list \<Rightarrow> real array_like \<Rightarrow> (error + grid \<times> sensor \<times> 'g) option" where
  "exposure poisson s g lens exposure_time temperature xcoords ycoords
            photon_flux_density background_flux =
     (case accumulate poisson (clear s) g lens exposure_time temperature xcoords ycoords
             photon_flux_density background_flux of
        None \<Rightarrow> None
      | Some (Inl (e, s1)) \<Rightarrow> Some (Inl e)
      | Some (Inr (s1, g1)) \<Rightarrow>
         (case readout poisson s1 g1 of
            Inl (e, s2) \<Rightarrow> Some (Inl e)
          | Inr r \<Rightarrow> Some (Inr r)))"

definition image_of :: "(error + grid \<times> sensor \<times> 'g) option \<Rightarrow> (error + grid) option" where
  "image_of r = map_option (map_sum id fst) r"


text \<open>
  The charge that arrives at the pixel in row \<open>i\<close> and column \<open>j\<close> in one pass of the
  loop, before the floor, for the excess \<open>e\<close> (zero outside the array): each direction
  of the set brings in the excess of the neighbour on the opposite side.
\<close>

definition inflow :: "sensor \<Rightarrow> (int \<Rightarrow> int \<Rightarrow> real) \<Rightarrow> int \<Rightarrow> int \<Rightarrow> real" where
  "inflow s e i j =
     1 / real (fcard (bloom s)) *
       ((if ''-x'' |\<in>| bloom s then e i (j + 1) else 0) +
        (if ''+x'' |\<in>| bloom s then e i (j - 1) else 0) +
        (if ''-y'' |\<in>| bloom s then e (i + 1) j else 0) +
        (if ''+y'' |\<in>| bloom s then e (i - 1) j else 0))"

text \<open>
  A weight on the pixels of an \<open>h\<close> by \<open>w\<close> array for the termination of the loop. Along
  each axis it grows in the direction of the bloom, and it is a concave parabola when
  both directions of the axis bloom, so that the weighted charge arriving at a pixel is
  less than the weight of the pixel.
\<close>

definition weight_x :: "sensor \<Rightarrow> nat \<Rightarrow> int \<Rightarrow> real" where
  "weight_x s w j =
     (if ''+x'' |\<in>| bloom s then of_int (j + 1) else 1) *
     (if ''-x'' |\<in>| bloom s then of_int (int w - j) else 1)"

definition weight_y :: "sensor \<Rightarrow> nat \<Rightarrow> int \<Rightarrow> real" where
  "weight_y s h i =
     (if ''+y'' |\<in>| bloom s then of_int (i + 1) else 1) *
     (if ''-y'' |\<in>| bloom s then of_int (int h - i) else 1)"

definition weight :: "sensor \<Rightarrow> nat \<Rightarrow> nat \<Rightarrow> int \<Rightarrow> int \<Rightarrow> real" where
  "weight s h w i j = weight_y s h i + weight_x s w j"

definition weight_max :: "nat \<Rightarrow> nat \<Rightarrow> real" where
  "weight_max h w = (real h + 1) * (real h + 1) + (real w + 1) * (real w + 1)"

text \<open>A buffer of \<open>h\<close> rows and \<open>w\<close> columns given by its entries.\<close>

definition tabulate :: "nat \<Rightarrow> nat \<Rightarrow> (nat \<Rightarrow> nat \<Rightarrow> real) \<Rightarrow> grid" where
  "tabulate h w f = map (\<lambda>i. map (\<lambda>j. f i j) [0..<w]) [0..<h]"

text \<open>A stand-in sampler and a small sensor and lens, for the concrete instances.\<close>

definition counting_sampler :: "nat \<Rightarrow> real \<Rightarrow> nat \<times> nat" where
  "counting_sampler g lam = (if lam = 0 then 0 else g + 1, g + 1)"

definition small_sensor :: sensor where
  "small_sensor = \<lparr>
     width_px = 2, height_px = 2, pixels = [[0, 0], [0, 0]],
     px_len_x = 10, px_len_y = 10, px_area = 100, px_pitch_x = 10, px_pitch_y = 10,
     width = 20, height = 20, quantum_eff = 1, dark_current = (\<lambda>T. 0),
     hot_pixels = [[1, 1], [1, 1]], read_noise = 1, gain = 1, bias = BiasScalar 100,
     full_well = 2, adc_limit = 101, bloom = {||}, readout_time = 0 \<rparr>"

definition small_lens :: lens where
  "small_lens = \<lparr> area = 1, psf = (\<lambda>x y. 0), psf_bounds_x = 10, psf_bounds_y = 10,
                   psf_resolution = 5 \<rparr>"

subsection \<open>Shapes and draws\<close>

lemma is_shape_iff: "is_shape a h w \<longleftrightarrow> length a = h \<and> (\<forall>i<h. length (a ! i) = w)"
  by (auto simp: is_shape_def list_all_length)

lemma grid_add_nth:
  "is_shape a h w \<Longrightarrow> is_shape b h w \<Longrightarrow> i < h \<Longrightarrow> j < w \<Longrightarrow>
   grid_add a b ! i ! j = a ! i ! j + b ! i ! j"
  by (simp add: grid_add_def is_shape_iff)

lemma grid_add_shape:
  "is_shape a h w \<Longrightarrow> is_shape b h w \<Longrightarrow> is_shape (grid_add a b) h w"
  by (simp add: grid_add_def is_shape_iff)

lemma electrons_shape: "is_shape d h w \<Longrightarrow> is_shape (electrons d) h w"
  by (simp add: electrons_def is_shape_iff)

lemma electrons_nth:
  "is_shape d h w \<Longrightarrow> i < h \<Longrightarrow> j < w \<Longrightarrow> electrons d ! i ! j = real (d ! i ! j)"
  by (simp add: electrons_def is_shape_iff)

lemma poisson_list_length:
  "poisson_list poisson g lams = (ds, g') \<Longrightarrow> length ds = length lams"
  by (induction lams arbitrary: g ds g') (auto split: prod.splits)

lemma poisson_rows_shape:
  "poisson_rows poisson g lam = (d, g') \<Longrightarrow> is_shape lam h w \<Longrightarrow> is_shape d h w"
  by (induction lam arbitrary: g d g' h)
     (auto split: prod.splits simp: is_shape_def dest: poisson_list_length)

lemma poisson_list_drawn:
  "poisson_list poisson g lams = (ds, g') \<Longrightarrow> j < length lams \<Longrightarrow>
   \<exists>gk. ds ! j = fst (poisson gk (lams ! j))"
proof (induction lams arbitrary: g ds g' j)
  case Nil
  then show ?case by simp
next
  case (Cons lam lams)
  obtain d g1 where d: "poisson g lam = (d, g1)" by force
  obtain ds1 g2 where ds1: "poisson_list poisson g1 lams = (ds1, g2)" by force
  from Cons.prems d ds1 have ds: "ds = d # ds1" by simp
  show ?case
  proof (cases j)
    case 0
    with ds d show ?thesis by (auto intro!: exI[of _ g])
  next
    case (Suc n)
    with Cons.prems have "n < length lams" by simp
    from Cons.IH[OF ds1 this] Suc ds show ?thesis by simp
  qed
qed

lemma poisson_rows_drawn:
  "poisson_rows poisson g lam = (d, g') \<Longrightarrow> i < length lam \<Longrightarrow> j < length (lam ! i) \<Longrightarrow>
   \<exists>gk. d ! i ! j = fst (poisson gk (lam ! i ! j))"
proof (induction lam arbitrary: g d g' i)
  case Nil
  then show ?case by simp
next
  case (Cons row rows)
  obtain ds g1 where ds: "poisson_list poisson g row = (ds, g1)" by force
  obtain dss g2 where dss: "poisson_rows poisson g1 rows = (dss, g2)" by force
  from Cons.prems ds dss have d: "d = ds # dss" by simp
  show ?case
  proof (cases i)
    case 0
    with Cons.prems poisson_list_drawn[OF ds, of j] d show ?thesis by simp
  next
    case (Suc n)
    with Cons.prems have "n < length rows" "j < length (rows ! n)" by simp_all
    from Cons.IH[OF dss this] Suc d show ?thesis by simp
  qed
qed

lemma stretch_length: "length xs = n \<or> length xs = 1 \<Longrightarrow> length (stretch xs n) = n"
  unfolding stretch_def by (cases "length xs = 1") simp_all

lemma replicate_is_shape: "length row = w \<Longrightarrow> is_shape (replicate h row) h w"
  by (simp add: is_shape_def list_all_iff)

lemma broadcast_to_shape: "broadcast_to a h w = Inr b \<Longrightarrow> is_shape b h w"
proof (cases a)
  case (A0 v)
  assume "broadcast_to a h w = Inr b"
  with A0 have "b = replicate h (replicate w v)" by simp
  then show ?thesis by (simp add: replicate_is_shape)
next
  case (A1 xs)
  assume "broadcast_to a h w = Inr b"
  with A1 have l: "length xs = w \<or> length xs = 1" and b: "b = replicate h (stretch xs w)"
    by (simp_all split: if_splits)
  from stretch_length[OF l] show ?thesis unfolding b by (rule replicate_is_shape)
next
  case (A2 rows)
  assume b: "broadcast_to a h w = Inr b"
  let ?rows = "map (\<lambda>r. stretch r w) rows"
  from b A2 have sh: "is_shape rows h w \<or> is_shape rows 1 w \<or> is_shape rows h 1 \<or> is_shape rows 1 1"
    and bb: "b = stretch ?rows h" by (simp_all split: if_splits)
  from sh have "length rows = h \<or> length rows = 1" unfolding is_shape_def by blast
  then have len: "length ?rows = h \<or> length ?rows = 1" by simp
  have rl: "length r = w \<or> length r = 1" if "r \<in> set rows" for r
    using sh that unfolding is_shape_def list_all_iff by blast
  have row: "length r = w" if "r \<in> set ?rows" for r
  proof -
    from that obtain r0 where "r0 \<in> set rows" "r = stretch r0 w" by auto
    with stretch_length[OF rl] show ?thesis by simp
  qed
  have "length b = h" unfolding bb by (rule stretch_length[OF len])
  moreover have "length r = w" if "r \<in> set b" for r
  proof (cases "length ?rows = 1")
    case True
    then have ne: "?rows \<noteq> []" by auto
    from True that have "r = hd ?rows" unfolding bb stretch_def by (cases "h = 0") simp_all
    with hd_in_set[OF ne] show ?thesis by (simp only: row)
  next
    case False
    with that have "r \<in> set ?rows" unfolding bb stretch_def by simp
    then show ?thesis by (rule row)
  qed
  ultimately show ?thesis unfolding is_shape_def list_all_iff by blast
next
  case AN
  assume "broadcast_to a h w = Inr b"
  with AN show ?thesis by simp
qed

lemma np_poisson_size_cases:
  assumes "np_poisson_size poisson g lam h w = Inr (d, g')"
  shows "\<exists>lams. broadcast_to lam h w = Inr lams \<and> poisson_rows poisson g lams = (d, g')"
  using assms by (auto simp: np_poisson_size_def split: if_splits sum.splits)

lemma np_poisson_size_shape:
  assumes "np_poisson_size poisson g lam h w = Inr (d, g')"
  shows "is_shape d h w"
proof -
  from np_poisson_size_cases[OF assms] obtain lams where
    "broadcast_to lam h w = Inr lams" "poisson_rows poisson g lams = (d, g')" by blast
  from poisson_rows_shape[OF this(2) broadcast_to_shape[OF this(1)]] show ?thesis .
qed

lemma np_poisson_size_scalar_drawn:
  assumes "np_poisson_size poisson g (A0 v) h w = Inr (d, g')" "i < h" "j < w"
  shows "\<exists>gk. d ! i ! j = fst (poisson gk v)"
proof -
  from np_poisson_size_cases[OF assms(1)]
  have "poisson_rows poisson g (replicate h (replicate w v)) = (d, g')" by simp
  from poisson_rows_drawn[OF this, of i j] assms(2,3) show ?thesis by simp
qed

lemma np_poisson_size_scalar_returns:
  "0 \<le> v \<Longrightarrow> \<exists>d g'. np_poisson_size poisson g (A0 v) h w = Inr (d, g')"
  by (cases "poisson_rows poisson g (replicate h (replicate w v))")
     (simp add: np_poisson_size_def not_less)

subsection \<open>Every operation changes the pixel buffer only\<close>

lemma deposit_config:
  "deposit poisson lens nx ny bx by s g src = Inr (s', g') \<Longrightarrow> s' = s\<lparr>pixels := pixels s'\<rparr>"
  by (auto simp: deposit_def Let_def split: prod.splits sum.splits if_splits)

lemma deposit_raise:
  "deposit poisson lens nx ny bx by s g src = Inl (e, s') \<Longrightarrow> s' = s"
  by (auto simp: deposit_def Let_def split: prod.splits sum.splits if_splits)

lemma sensor_after_simps [simp]:
  "sensor_after (Inl (e, s)) = s" "sensor_after (Inr (s, g)) = s"
  by (simp_all add: sensor_after_def)

lemma config_trans:
  "s1 = s\<lparr>pixels := p1\<rparr> \<Longrightarrow> s2 = s1\<lparr>pixels := p2\<rparr> \<Longrightarrow> s2 = s\<lparr>pixels := pixels s2\<rparr>"
  by simp

lemma deposit_all_config:
  "sensor_after (deposit_all poisson lens nx ny bx by s g srcs) =
   s\<lparr>pixels := pixels (sensor_after (deposit_all poisson lens nx ny bx by s g srcs))\<rparr>"
proof (induction srcs arbitrary: s g)
  case Nil
  then show ?case by simp
next
  case (Cons src srcs)
  show ?case
  proof (cases "deposit poisson lens nx ny bx by s g src")
    case (Inl a)
    then obtain e s' where a: "a = (e, s')" by force
    with Inl have "s' = s" by (auto dest: deposit_raise)
    with Inl a show ?thesis by simp
  next
    case (Inr b)
    then obtain s1 g1 where b: "b = (s1, g1)" by force
    with Inr have s1: "s1 = s\<lparr>pixels := pixels s1\<rparr>" by (auto dest: deposit_config)
    from Inr b have eq: "deposit_all poisson lens nx ny bx by s g (src # srcs) =
       deposit_all poisson lens nx ny bx by s1 g1 srcs" by simp
    show ?thesis unfolding eq by (rule config_trans[OF s1 Cons.IH])
  qed
qed

lemma applyPSF_config:
  "sensor_after (applyPSF poisson lens s g xs ys dose) =
   s\<lparr>pixels := pixels (sensor_after (applyPSF poisson lens s g xs ys dose))\<rparr>"
proof -
  have "applyPSF poisson lens s g xs ys dose = Inl (IntOfNaN, s) \<or>
        applyPSF poisson lens s g xs ys dose = Inl (IntOfInfinity, s) \<or>
        (\<exists>nx ny bx by. applyPSF poisson lens s g xs ys dose =
           deposit_all poisson lens nx ny bx by s g (zip xs (zip ys dose)))"
    unfolding applyPSF_def sample_count_def int_ceil_ratio_def
    by (auto split: sum.splits if_splits)
  then show ?thesis using deposit_all_config by (elim disjE exE) simp_all
qed

lemma applyBloom_config:
  "applyBloom s = Some s' \<Longrightarrow> s' = s\<lparr>pixels := pixels s'\<rparr>"
  by (auto simp: applyBloom_def split: if_splits)

lemma source_stage_config:
  "sensor_after (source_stage poisson s g lens et xs ys fl) =
   s\<lparr>pixels := pixels (sensor_after (source_stage poisson s g lens et xs ys fl))\<rparr>"
  unfolding source_stage_def using applyPSF_config by (cases "length fl > 0") simp_all

lemma background_stage_config:
  "sensor_after (background_stage poisson s g lens et bg) =
   s\<lparr>pixels := pixels (sensor_after (background_stage poisson s g lens et bg))\<rparr>"
  by (simp add: background_stage_def split: sum.splits prod.splits)

lemma dark_stage_config:
  "sensor_after (dark_stage poisson s g et T) =
   s\<lparr>pixels := pixels (sensor_after (dark_stage poisson s g et T))\<rparr>"
  by (simp add: dark_stage_def split: sum.splits prod.splits)

lemma accumulate_config:
  assumes acc: "accumulate poisson s g lens et T xs ys fl bg = Some r"
  shows "sensor_after r = s\<lparr>pixels := pixels (sensor_after r)\<rparr>"
proof -
  let ?r1 = "source_stage poisson s g lens et xs ys fl"
  have c1: "sensor_after ?r1 = s\<lparr>pixels := pixels (sensor_after ?r1)\<rparr>"
    by (rule source_stage_config)
  show ?thesis
  proof (cases ?r1)
    case (Inl a)
    with acc have "r = Inl a" by (simp add: accumulate_def)
    with c1 Inl show ?thesis by simp
  next
    case (Inr b1)
    then obtain s1 g1 where r1: "?r1 = Inr (s1, g1)" by (cases b1) auto
    with c1 have s1: "s1 = s\<lparr>pixels := pixels s1\<rparr>" by simp
    let ?r2 = "background_stage poisson s1 g1 lens et bg"
    have c2: "sensor_after ?r2 = s1\<lparr>pixels := pixels (sensor_after ?r2)\<rparr>"
      by (rule background_stage_config)
    show ?thesis
    proof (cases ?r2)
      case (Inl a)
      with acc r1 have "r = Inl a" by (simp add: accumulate_def)
      with c2 Inl show ?thesis using config_trans[OF s1] by simp
    next
      case (Inr b2)
      then obtain s2 g2 where r2: "?r2 = Inr (s2, g2)" by (cases b2) auto
      with c2 have "s2 = s1\<lparr>pixels := pixels s2\<rparr>" by simp
      from config_trans[OF s1 this] have s2: "s2 = s\<lparr>pixels := pixels s2\<rparr>" .
      let ?r3 = "dark_stage poisson s2 g2 et T"
      have c3: "sensor_after ?r3 = s2\<lparr>pixels := pixels (sensor_after ?r3)\<rparr>"
        by (rule dark_stage_config)
      show ?thesis
      proof (cases ?r3)
        case (Inl a)
        with acc r1 r2 have "r = Inl a" by (simp add: accumulate_def)
        with c3 Inl show ?thesis using config_trans[OF s2] by simp
      next
        case (Inr b3)
        then obtain s3 g3 where r3: "?r3 = Inr (s3, g3)" by (cases b3) auto
        with c3 have "s3 = s2\<lparr>pixels := pixels s3\<rparr>" by simp
        from config_trans[OF s2 this] have s3: "s3 = s\<lparr>pixels := pixels s3\<rparr>" .
        from acc r1 r2 r3 obtain s4 where s4: "applyBloom s3 = Some s4" "r = Inr (s4, g3)"
          by (auto simp: accumulate_def)
        from applyBloom_config[OF s4(1)] have "s4 = s3\<lparr>pixels := pixels s4\<rparr>" .
        from config_trans[OF s3 this] s4(2) show ?thesis by simp
      qed
    qed
  qed
qed

lemma readout_config:
  "readout poisson s g = Inr (img, s', g') \<Longrightarrow> s' = s\<lparr>pixels := pixels s'\<rparr>"
  by (auto simp: readout_def Let_def split: sum.splits prod.splits)

subsection \<open>The stages of \<^verbatim>\<open>accumulate\<close>\<close>

lemma accumulate_returns:
  assumes "accumulate poisson s g lens et T xs ys fl bg = Some (Inr (s', g'))"
  shows "\<exists>s1 g1 s2 g2 s3.
           source_stage poisson s g lens et xs ys fl = Inr (s1, g1) \<and>
           background_stage poisson s1 g1 lens et bg = Inr (s2, g2) \<and>
           dark_stage poisson s2 g2 et T = Inr (s3, g') \<and>
           applyBloom s3 = Some s'"
  using assms by (auto simp: accumulate_def split: sum.splits prod.splits)

lemma accumulate_raises:
  assumes "accumulate poisson s g lens et T xs ys fl bg = Some (Inl (e, s'))"
  shows "source_stage poisson s g lens et xs ys fl = Inl (e, s') \<or>
         (\<exists>s1 g1. source_stage poisson s g lens et xs ys fl = Inr (s1, g1) \<and>
            (background_stage poisson s1 g1 lens et bg = Inl (e, s') \<or>
             (\<exists>s2 g2. background_stage poisson s1 g1 lens et bg = Inr (s2, g2) \<and>
                       dark_stage poisson s2 g2 et T = Inl (e, s'))))"
  using assms by (auto simp: accumulate_def split: sum.splits prod.splits)

subsection \<open>Non-negative buffers\<close>

lemma nonneg_iff: "nonneg px \<longleftrightarrow> (\<forall>row\<in>set px. \<forall>p\<in>set row. 0 \<le> p)"
  by (simp add: nonneg_def list_all_iff)

lemma set_map2:
  "(\<And>x y. x \<in> set xs \<Longrightarrow> y \<in> set ys \<Longrightarrow> R (f x y)) \<Longrightarrow> \<forall>z\<in>set (map2 f xs ys). R z"
  by (auto dest: set_zip_leftD set_zip_rightD)

lemma nonneg_grid_add: "nonneg a \<Longrightarrow> nonneg b \<Longrightarrow> nonneg (grid_add a b)"
  unfolding nonneg_iff grid_add_def
  by (intro set_map2) (simp add: add_nonneg_nonneg)

lemma nonneg_electrons: "nonneg (electrons d)"
  by (auto simp: nonneg_iff electrons_def)

lemma nonneg_add_at: "nonneg px \<Longrightarrow> nonneg (add_at rcd px)"
proof -
  assume n: "nonneg px"
  obtain r c d where rcd: "rcd = ((r, c), d)" by (cases rcd) auto
  have row: "\<forall>p\<in>set ((px ! r)[c := px ! r ! c + real d]). 0 \<le> p" if r: "r < length px"
  proof (cases "c < length (px ! r)")
    case True
    have q: "\<forall>q\<in>set (px ! r). 0 \<le> q" using n nth_mem[OF r] unfolding nonneg_iff by blast
    then have "0 \<le> px ! r ! c + real d" using nth_mem[OF True] by (simp add: add_nonneg_nonneg)
    with q show ?thesis using set_update_subset_insert[of "px ! r" c] by fastforce
  next
    case False
    then have "length (px ! r) \<le> c" by simp
    then have "(px ! r)[c := px ! r ! c + real d] = px ! r" by (rule list_update_beyond)
    then show ?thesis using n nth_mem[OF r] unfolding nonneg_iff by simp
  qed
  show ?thesis
  proof (cases "r < length px")
    case True
    have "set (px[r := (px ! r)[c := px ! r ! c + real d]]) \<subseteq>
          insert ((px ! r)[c := px ! r ! c + real d]) (set px)"
      by (rule set_update_subset_insert)
    with row[OF True] n show ?thesis unfolding rcd add_at_def nonneg_iff by auto
  next
    case False
    then have "length px \<le> r" by simp
    then have "px[r := (px ! r)[c := px ! r ! c + real d]] = px" by (rule list_update_beyond)
    with n show ?thesis by (simp add: rcd add_at_def)
  qed
qed

lemma nonneg_fold_add_at: "nonneg px \<Longrightarrow> nonneg (fold add_at upd px)"
  by (induction upd arbitrary: px) (simp_all add: nonneg_add_at)

lemma deposit_nonneg:
  "nonneg (pixels s) \<Longrightarrow> nonneg (pixels (sensor_after (deposit poisson lens nx ny bx by s g src)))"
  by (auto simp: deposit_def Let_def nonneg_fold_add_at split: prod.splits sum.splits)

lemma deposit_all_nonneg:
  "nonneg (pixels s) \<Longrightarrow>
   nonneg (pixels (sensor_after (deposit_all poisson lens nx ny bx by s g srcs)))"
proof (induction srcs arbitrary: s g)
  case Nil
  then show ?case by simp
next
  case (Cons src srcs)
  from deposit_nonneg[OF Cons.prems, of poisson lens nx ny bx "by" g src] Cons.IH
  show ?case by (auto split: sum.splits)
qed

lemma applyPSF_nonneg:
  "nonneg (pixels s) \<Longrightarrow> nonneg (pixels (sensor_after (applyPSF poisson lens s g xs ys dose)))"
  unfolding applyPSF_def by (auto split: sum.splits simp: deposit_all_nonneg)

lemma source_stage_nonneg:
  "nonneg (pixels s) \<Longrightarrow>
   nonneg (pixels (sensor_after (source_stage poisson s g lens et xs ys fl)))"
  unfolding source_stage_def by (simp add: applyPSF_nonneg)

lemma background_stage_nonneg:
  "nonneg (pixels s) \<Longrightarrow>
   nonneg (pixels (sensor_after (background_stage poisson s g lens et bg)))"
  by (auto simp: background_stage_def nonneg_grid_add nonneg_electrons split: sum.splits)

lemma dark_stage_nonneg:
  "nonneg (pixels s) \<Longrightarrow> nonneg (pixels (sensor_after (dark_stage poisson s g et T)))"
  by (auto simp: dark_stage_def nonneg_grid_add nonneg_electrons split: sum.splits)

subsection \<open>The bloom loop keeps a buffer non-negative\<close>

lemma map2_same: "map2 g xs (map f xs) = map (\<lambda>x. g x (f x)) xs"
  by (induction xs) simp_all

lemma cap_eq: "p - max 0 (p - F) = min p (F::real)"
  by (simp add: max_def min_def)

lemma grid_sub_excess:
  "grid_sub px (excess s px) = map (map (\<lambda>p. min p (full_well s))) px"
proof -
  have "grid_sub px (excess s px) =
        map (\<lambda>row. map2 (-) row (map (\<lambda>p. max 0 (p - full_well s)) row)) px"
    unfolding grid_sub_def excess_def by (rule map2_same)
  also have "\<dots> = map (map (\<lambda>p. min p (full_well s))) px"
    by (simp add: map2_same cap_eq)
  finally show ?thesis .
qed

lemma nonneg_cap: "0 \<le> F \<Longrightarrow> nonneg px \<Longrightarrow> nonneg (map (map (\<lambda>p. min p F)) px)"
  by (auto simp: nonneg_iff)

lemma at_most_cap: "at_most F (map (map (\<lambda>p. min p F)) px)"
  by (auto simp: at_most_def list_all_iff)

lemma at0_excess:
  "at0 (excess s px) i j =
     (if 0 \<le> i \<and> i < int (length px) \<and> 0 \<le> j \<and> j < int (length (px ! nat i))
      then max 0 (px ! nat i ! nat j - full_well s) else 0)"
proof (cases "0 \<le> i \<and> i < int (length px)")
  case True
  then have i: "nat i < length px" by linarith
  show ?thesis
  proof (cases "0 \<le> j \<and> j < int (length (px ! nat i))")
    case True
    then have "nat j < length (px ! nat i)" by linarith
    with i True \<open>0 \<le> i \<and> i < int (length px)\<close> show ?thesis
      by (simp add: at0_def excess_def)
  next
    case False
    with i show ?thesis by (auto simp: at0_def excess_def)
  qed
next
  case False
  then show ?thesis by (auto simp: at0_def excess_def)
qed

lemma at0_excess_nonneg: "0 \<le> at0 (excess s px) i j"
  by (simp add: at0_excess)

lemma conv_filter_nonneg: "0 \<le> conv_filter s u v"
  by (simp add: conv_filter_def Let_def)

lemma upt3: "[0..<3] = [0, 1, 2]"
  by (simp add: upt_rec)

lemma nonneg_floor_conv:
  "nonneg (map (map (\<lambda>x. of_int \<lfloor>x\<rfloor>)) (convolve2d_same (excess s px) (conv_filter s)))"
  unfolding nonneg_iff convolve2d_same_def
  by (auto intro!: sum_list_nonneg mult_nonneg_nonneg conv_filter_nonneg at0_excess_nonneg)

lemma bloom_body_nonneg: "0 \<le> full_well s \<Longrightarrow> nonneg px \<Longrightarrow> nonneg (bloom_body s px)"
  unfolding bloom_body_def grid_sub_excess
  by (intro nonneg_grid_add nonneg_cap nonneg_floor_conv)

lemma bloom_loop_nonneg:
  "0 \<le> full_well s \<Longrightarrow> nonneg px \<Longrightarrow> bloom_loop s px = Some px' \<Longrightarrow> nonneg px'"
  unfolding bloom_loop_def
  by (rule while_option_rule[where P = nonneg]) (auto simp: bloom_body_nonneg)

lemma applyBloom_nonneg:
  "0 \<le> full_well s \<Longrightarrow> nonneg (pixels s) \<Longrightarrow> applyBloom s = Some s' \<Longrightarrow> nonneg (pixels s')"
  by (auto simp: applyBloom_def nonneg_cap split: if_splits dest: bloom_loop_nonneg)

lemma applyBloom_no_bloom:
  "bloom s = {||} \<Longrightarrow> applyBloom s = Some s' \<Longrightarrow> at_most (full_well s) (pixels s')"
  by (auto simp: applyBloom_def at_most_cap)

subsection \<open>\<^verbatim>\<open>readout\<close> entry by entry\<close>

lemma digitize_shape:
  assumes "well_shaped s"
  shows "is_shape (digitize s) (height_px s) (width_px s)"
  using assms
  by (cases "bias s") (auto simp: well_shaped_def digitize_def add_bias_def is_shape_iff)

lemma digitize_nth:
  assumes "well_shaped s" "i < height_px s" "j < width_px s"
  shows "digitize s ! i ! j =
         min (of_int \<lfloor>pixels s ! i ! j * gain s\<rfloor> + of_int (bias_at (bias s) i j))
             (of_int (adc_limit s))"
  using assms
  by (cases "bias s") (auto simp: well_shaped_def digitize_def add_bias_def is_shape_iff bias_at_def)

lemma np_poisson_shape:
  "np_poisson poisson g lam = Inr (d, g') \<Longrightarrow> is_shape lam h w \<Longrightarrow> is_shape d h w"
  by (auto simp: np_poisson_def split: if_splits dest: poisson_rows_shape)

lemma readout_returns:
  assumes "0 \<le> read_noise s"
  shows "\<exists>img s' g'. readout poisson s g = Inr (img, s', g')"
proof -
  from np_poisson_size_scalar_returns[OF assms, of poisson g "height_px s" "width_px s"]
  show ?thesis by (auto simp: readout_def Let_def)
qed

lemma readout_effect:
  assumes ws: "well_shaped s" and r: "readout poisson s g = Inr (img, s', g')"
  shows "\<exists>d. is_shape d (height_px s) (width_px s) \<and>
             (\<forall>i<height_px s. \<forall>j<width_px s.
                pixels s' ! i ! j = pixels s ! i ! j + real (d ! i ! j) \<and>
                (\<exists>gk. d ! i ! j = fst (poisson gk (read_noise s)))) \<and>
             s' = s\<lparr>pixels := pixels s'\<rparr> \<and> well_shaped s' \<and> img = digitize s'"
proof -
  from r obtain d where
    d: "np_poisson_size poisson g (A0 (read_noise s)) (height_px s) (width_px s) = Inr (d, g')"
    and s': "s' = s\<lparr>pixels := grid_add (pixels s) (electrons d)\<rparr>" and img: "img = digitize s'"
    by (auto simp: readout_def Let_def split: sum.splits prod.splits)
  have sh: "is_shape d (height_px s) (width_px s)"
    by (rule np_poisson_size_shape[OF d])
  from ws have px: "is_shape (pixels s) (height_px s) (width_px s)" by (simp add: well_shaped_def)
  have "\<forall>i<height_px s. \<forall>j<width_px s.
          pixels s' ! i ! j = pixels s ! i ! j + real (d ! i ! j) \<and>
          (\<exists>gk. d ! i ! j = fst (poisson gk (read_noise s)))"
  proof (intro allI impI)
    fix i j assume ij: "i < height_px s" "j < width_px s"
    from np_poisson_size_scalar_drawn[OF d ij]
    have "\<exists>gk. d ! i ! j = fst (poisson gk (read_noise s))" .
    moreover have "pixels s' ! i ! j = pixels s ! i ! j + real (d ! i ! j)"
      using grid_add_nth[OF px electrons_shape[OF sh] ij] electrons_nth[OF sh ij] s' by simp
    ultimately show "pixels s' ! i ! j = pixels s ! i ! j + real (d ! i ! j) \<and>
          (\<exists>gk. d ! i ! j = fst (poisson gk (read_noise s)))" by simp
  qed
  moreover have "well_shaped s'"
    using ws grid_add_shape[OF px electrons_shape[OF sh]] s'
    by (simp add: well_shaped_def split: bias_t.splits)
  ultimately show ?thesis using sh s' img by auto
qed

lemma readout_draws:
  assumes ws: "well_shaped s" and r: "readout poisson s g = Inr (img, s', g')"
  shows "\<exists>d. np_poisson_size poisson g (A0 (read_noise s)) (height_px s) (width_px s) =
               Inr (d, g') \<and>
             is_shape d (height_px s) (width_px s) \<and>
             (\<forall>i<height_px s. \<forall>j<width_px s.
                pixels s' ! i ! j = pixels s ! i ! j + real (d ! i ! j) \<and>
                (\<exists>gk. d ! i ! j = fst (poisson gk (read_noise s)))) \<and>
             s' = s\<lparr>pixels := pixels s'\<rparr> \<and> well_shaped s' \<and> img = digitize s'"
proof -
  from r obtain d where
    d: "np_poisson_size poisson g (A0 (read_noise s)) (height_px s) (width_px s) = Inr (d, g')"
    and s': "s' = s\<lparr>pixels := grid_add (pixels s) (electrons d)\<rparr>" and img: "img = digitize s'"
    by (auto simp: readout_def Let_def split: sum.splits prod.splits)
  have sh: "is_shape d (height_px s) (width_px s)"
    by (rule np_poisson_size_shape[OF d])
  from ws have px: "is_shape (pixels s) (height_px s) (width_px s)" by (simp add: well_shaped_def)
  have pt: "\<forall>i<height_px s. \<forall>j<width_px s.
          pixels s' ! i ! j = pixels s ! i ! j + real (d ! i ! j) \<and>
          (\<exists>gk. d ! i ! j = fst (poisson gk (read_noise s)))"
  proof (intro allI impI)
    fix i j assume ij: "i < height_px s" "j < width_px s"
    from np_poisson_size_scalar_drawn[OF d ij]
    have "\<exists>gk. d ! i ! j = fst (poisson gk (read_noise s))" .
    moreover have "pixels s' ! i ! j = pixels s ! i ! j + real (d ! i ! j)"
      using grid_add_nth[OF px electrons_shape[OF sh] ij] electrons_nth[OF sh ij] s' by simp
    ultimately show "pixels s' ! i ! j = pixels s ! i ! j + real (d ! i ! j) \<and>
          (\<exists>gk. d ! i ! j = fst (poisson gk (read_noise s)))" by simp
  qed
  have ws': "well_shaped s'"
    using ws grid_add_shape[OF px electrons_shape[OF sh]] s'
    by (simp add: well_shaped_def split: bias_t.splits)
  from s' have c: "s' = s\<lparr>pixels := pixels s'\<rparr>" by simp
  from d sh pt c ws' img show ?thesis by blast
qed

subsection \<open>An exposure does not depend on the buffer it starts from\<close>

lemma clear_pixels_irrelevant: "clear (s\<lparr>pixels := p\<rparr>) = clear s"
  by (simp add: clear_def)

lemma exposure_pixels_irrelevant:
  "exposure poisson (s\<lparr>pixels := p\<rparr>) g lens et T xs ys fl bg =
   exposure poisson s g lens et T xs ys fl bg"
  by (simp add: exposure_def clear_pixels_irrelevant)

lemma exposure_config:
  assumes "exposure poisson s g lens et T xs ys fl bg = Some (Inr (img, s', g'))"
  shows "s' = s\<lparr>pixels := pixels s'\<rparr>"
proof -
  from assms obtain s1 g1 where
    acc: "accumulate poisson (clear s) g lens et T xs ys fl bg = Some (Inr (s1, g1))"
    and r: "readout poisson s1 g1 = Inr (img, s', g')"
    by (auto simp: exposure_def split: option.splits sum.splits prod.splits)
  from accumulate_config[OF acc] have "s1 = clear s\<lparr>pixels := pixels s1\<rparr>" by simp
  then have "s1 = s\<lparr>pixels := pixels s1\<rparr>" by (simp add: clear_def)
  from config_trans[OF this readout_config[OF r]] show ?thesis .
qed

subsection \<open>One pass of the bloom loop, entry by entry\<close>

lemma grid_eqI:
  assumes "is_shape a h w" "is_shape b h w" "\<And>i j. i < h \<Longrightarrow> j < w \<Longrightarrow> a ! i ! j = b ! i ! j"
  shows "a = b"
proof (rule nth_equalityI)
  show "length a = length b" using assms(1,2) by (simp add: is_shape_iff)
next
  fix i assume "i < length a"
  then have i: "i < h" using assms(1) by (simp add: is_shape_iff)
  show "a ! i = b ! i"
  proof (rule nth_equalityI)
    show "length (a ! i) = length (b ! i)" using assms(1,2) i by (simp add: is_shape_iff)
  next
    fix j assume "j < length (a ! i)"
    then have "j < w" using assms(1) i by (simp add: is_shape_iff)
    with i show "a ! i ! j = b ! i ! j" by (rule assms(3))
  qed
qed

lemma tabulate_shape: "is_shape (tabulate h w f) h w"
  by (simp add: tabulate_def is_shape_iff)

lemma tabulate_nth: "i < h \<Longrightarrow> j < w \<Longrightarrow> tabulate h w f ! i ! j = f i j"
  by (simp add: tabulate_def)

lemma excess_shape: "is_shape px h w \<Longrightarrow> is_shape (excess s px) h w"
  by (simp add: excess_def is_shape_iff)

lemma convolve2d_same_shape: "is_shape a h w \<Longrightarrow> is_shape (convolve2d_same a K) h w"
  by (simp add: convolve2d_same_def is_shape_iff)

lemma convolve2d_same_nth:
  "is_shape a h w \<Longrightarrow> i < h \<Longrightarrow> j < w \<Longrightarrow>
   convolve2d_same a K ! i ! j =
     (\<Sum>u\<leftarrow>[0..<3]. \<Sum>v\<leftarrow>[0..<3]. K u v * at0 a (int i + 1 - int u) (int j + 1 - int v))"
  by (simp add: convolve2d_same_def is_shape_iff)

lemma conv_filter_sum:
  "(\<Sum>u\<leftarrow>[0..<3]. \<Sum>v\<leftarrow>[0..<3]. conv_filter s u v * e (i + 1 - int u) (j + 1 - int v)) =
   inflow s e i j"
  by (simp add: upt3 conv_filter_def inflow_def Let_def algebra_simps)

lemma bloom_body_shape: "is_shape px h w \<Longrightarrow> is_shape (bloom_body s px) h w"
  unfolding bloom_body_def grid_sub_excess
  by (intro grid_add_shape) (simp_all add: is_shape_iff convolve2d_same_def excess_def)

lemma bloom_body_nth:
  assumes "is_shape px h w" "i < h" "j < w"
  shows "bloom_body s px ! i ! j =
         min (px ! i ! j) (full_well s) +
         of_int \<lfloor>inflow s (at0 (excess s px)) (int i) (int j)\<rfloor>"
proof -
  have c: "is_shape (convolve2d_same (excess s px) (conv_filter s)) h w"
    by (rule convolve2d_same_shape[OF excess_shape[OF assms(1)]])
  have "bloom_body s px ! i ! j =
        map (map (\<lambda>p. min p (full_well s))) px ! i ! j +
        map (map (\<lambda>x. of_int \<lfloor>x\<rfloor>)) (convolve2d_same (excess s px) (conv_filter s)) ! i ! j"
    unfolding bloom_body_def grid_sub_excess
    using assms c by (intro grid_add_nth[where h = h and w = w]) (simp_all add: is_shape_iff)
  also have "map (map (\<lambda>p. min p (full_well s))) px ! i ! j = min (px ! i ! j) (full_well s)"
    using assms by (simp add: is_shape_iff)
  also have "map (map (\<lambda>x. of_int \<lfloor>x\<rfloor>)) (convolve2d_same (excess s px) (conv_filter s)) ! i ! j
      = of_int \<lfloor>convolve2d_same (excess s px) (conv_filter s) ! i ! j\<rfloor>"
    using assms c by (simp add: is_shape_iff)
  also have "convolve2d_same (excess s px) (conv_filter s) ! i ! j =
      inflow s (at0 (excess s px)) (int i) (int j)"
    using convolve2d_same_nth[OF excess_shape[OF assms(1)] assms(2,3)] conv_filter_sum
    by simp
  finally show ?thesis .
qed

lemma at0_excess_shape:
  assumes "is_shape px h w"
  shows "at0 (excess s px) i j =
         (if 0 \<le> i \<and> i < int h \<and> 0 \<le> j \<and> j < int w
          then max 0 (px ! nat i ! nat j - full_well s) else 0)"
proof (cases "0 \<le> i \<and> i < int h")
  case True
  then have "nat i < h" by linarith
  with assms have "length (px ! nat i) = w" "length px = h" by (simp_all add: is_shape_iff)
  with True show ?thesis by (simp add: at0_excess)
next
  case False
  with assms show ?thesis by (auto simp: at0_excess is_shape_iff)
qed

lemma any_excess_iff:
  assumes "is_shape px h w"
  shows "any_excess s px \<longleftrightarrow> (\<exists>i<h. \<exists>j<w. full_well s < px ! i ! j)"
proof -
  have pos: "0 < max 0 (p - full_well s) \<longleftrightarrow> full_well s < p" for p
    by (simp add: max_def)
  have "any_excess s px \<longleftrightarrow> (\<exists>row\<in>set px. \<exists>p\<in>set row. full_well s < p)"
    by (simp add: any_excess_def excess_def list_ex_iff pos)
  also have "\<dots> \<longleftrightarrow> (\<exists>i<length px. \<exists>j<length (px ! i). full_well s < px ! i ! j)"
    by (metis in_set_conv_nth)
  also have "\<dots> \<longleftrightarrow> (\<exists>i<h. \<exists>j<w. full_well s < px ! i ! j)"
    using assms by (auto simp: is_shape_iff)
  finally show ?thesis .
qed

lemma fcard_four: "fcard {|''+x'', ''-x'', ''+y'', ''-y''|} = 4"
  by (simp add: fcard_finsert_if)

lemma bloom_body_no_excess:
  assumes sh: "is_shape px h w" and ne: "\<not> any_excess s px"
  shows "bloom_body s px = px"
proof (rule grid_eqI[OF bloom_body_shape[OF sh] sh])
  fix i j assume ij: "i < h" "j < w"
  from ne have le: "\<And>i j. i < h \<Longrightarrow> j < w \<Longrightarrow> px ! i ! j \<le> full_well s"
    unfolding any_excess_iff[OF sh] by (meson not_less)
  have z: "at0 (excess s px) a b = 0" for a b
  proof (cases "0 \<le> a \<and> a < int h \<and> 0 \<le> b \<and> b < int w")
    case True
    then have "nat a < h" "nat b < w" by linarith+
    from le[OF this] True show ?thesis by (simp add: at0_excess_shape[OF sh])
  next
    case False
    then show ?thesis by (auto simp: at0_excess_shape[OF sh])
  qed
  have "inflow s (at0 (excess s px)) (int i) (int j) = 0"
    by (simp add: inflow_def z)
  with bloom_body_nth[OF sh ij, of s] le[OF ij] show "bloom_body s px ! i ! j = px ! i ! j"
    by simp
qed

lemma bloom_body_funpow_no_excess:
  assumes sh: "is_shape px h w" and ne: "\<not> any_excess s px"
  shows "(bloom_body s ^^ n) px = px"
  by (induction n) (simp_all add: bloom_body_no_excess[OF sh ne])

lemma dark_lambda_config: "dark_lambda (s\<lparr>pixels := p\<rparr>) et T = dark_lambda s et T"
  by (simp add: dark_lambda_def)

subsection \<open>The bloom loop ends\<close>

lemma frac_directions:
  "1 / real (fcard B) *
     ((if ''-x'' |\<in>| B then m else 0) + (if ''+x'' |\<in>| B then m else 0) +
      (if ''-y'' |\<in>| B then m else 0) + (if ''+y'' |\<in>| B then m else 0)) \<le> m"
  if "0 \<le> m" for m :: real
proof -
  let ?D = "(if ''-x'' |\<in>| B then {|''-x''|} else {||}) |\<union>|
            (if ''+x'' |\<in>| B then {|''+x''|} else {||}) |\<union>|
            (if ''-y'' |\<in>| B then {|''-y''|} else {||}) |\<union>|
            (if ''+y'' |\<in>| B then {|''+y''|} else {||})"
  let ?n = "real (fcard ?D)"
  have "?D |\<subseteq>| B" by auto
  then have le: "fcard ?D \<le> fcard B" by (rule fcard_mono)
  have sum: "(if ''-x'' |\<in>| B then m else 0) + (if ''+x'' |\<in>| B then m else 0) +
      (if ''-y'' |\<in>| B then m else 0) + (if ''+y'' |\<in>| B then m else 0) = ?n * m"
    by (auto simp: fcard_finsert_if algebra_simps)
  show ?thesis
  proof (cases "fcard B = 0")
    case True
    with that show ?thesis by simp
  next
    case False
    then have "0 < fcard B" by (rule neq0_conv[THEN iffD1])
    then have pos: "0 < real (fcard B)" by (simp only: of_nat_0_less_iff)
    from le have "?n * m \<le> real (fcard B) * m" using that by (simp add: mult_right_mono)
    then have "?n * m / real (fcard B) \<le> m" using pos by (simp add: pos_divide_le_eq mult.commute)
    then show ?thesis unfolding sum by simp
  qed
qed

lemma inflow_mono:
  assumes "e i (j + 1) \<le> e' i (j + 1)" "e i (j - 1) \<le> e' i (j - 1)"
    "e (i + 1) j \<le> e' (i + 1) j" "e (i - 1) j \<le> e' (i - 1) j"
  shows "inflow s e i j \<le> inflow s e' i j"
  unfolding inflow_def using assms
  by (intro mult_left_mono add_mono) auto

lemma inflow_scale: "inflow s (\<lambda>i j. c * e i j) i j = c * inflow s e i j"
  by (simp add: inflow_def algebra_simps)

lemma inflow_le_bound:
  assumes "0 \<le> m" "e i (j + 1) \<le> m" "e i (j - 1) \<le> m" "e (i + 1) j \<le> m" "e (i - 1) j \<le> m"
  shows "inflow s e i j \<le> m"
proof -
  have "inflow s e i j \<le> inflow s (\<lambda>i j. m) i j"
    by (rule inflow_mono) (use assms in simp_all)
  also have "\<dots> \<le> m" unfolding inflow_def by (rule frac_directions[OF assms(1)])
  finally show ?thesis .
qed

lemma inflow_nonneg:
  assumes "\<And>a b. 0 \<le> e a b"
  shows "0 \<le> inflow s e i j"
  unfolding inflow_def using assms by (intro mult_nonneg_nonneg add_nonneg_nonneg) auto


lemma weight_neighbours:
  "(if ''-x'' |\<in>| bloom s then weight s h w i (j + 1) else 0) +
   (if ''+x'' |\<in>| bloom s then weight s h w i (j - 1) else 0) +
   (if ''-y'' |\<in>| bloom s then weight s h w (i + 1) j else 0) +
   (if ''+y'' |\<in>| bloom s then weight s h w (i - 1) j else 0) =
   (if ''-x'' |\<in>| bloom s then weight s h w i j - 1 else 0) +
   (if ''+x'' |\<in>| bloom s then weight s h w i j - 1 else 0) +
   (if ''-y'' |\<in>| bloom s then weight s h w i j - 1 else 0) +
   (if ''+y'' |\<in>| bloom s then weight s h w i j - 1 else 0)"
  by (simp add: weight_def weight_x_def weight_y_def algebra_simps)

lemma factor_up_bounds:
  fixes n :: nat and k :: int
  assumes "- 1 \<le> k" "k \<le> int n"
  shows "0 \<le> (if P then (of_int (k + 1) :: real) else 1)"
        "(if P then (of_int (k + 1) :: real) else 1) \<le> real n + 1"
  using assms by auto

lemma factor_down_bounds:
  fixes n :: nat and k :: int
  assumes "- 1 \<le> k" "k \<le> int n"
  shows "0 \<le> (if Q then (of_int (int n - k) :: real) else 1)"
        "(if Q then (of_int (int n - k) :: real) else 1) \<le> real n + 1"
  using assms by auto

lemma factor_bounds_inside:
  fixes n :: nat and k :: int
  assumes "0 \<le> k" "k < int n"
  shows "1 \<le> (if P then (of_int (k + 1) :: real) else 1)"
        "1 \<le> (if Q then (of_int (int n - k) :: real) else 1)"
  using assms by auto

lemma product_bounds:
  fixes a b m :: real
  assumes "0 \<le> a" "a \<le> m" "0 \<le> b" "b \<le> m"
  shows "0 \<le> a * b" "a * b \<le> m * m"
  using assms by (auto intro: mult_nonneg_nonneg mult_mono)

lemma product_ge_one:
  fixes a b :: real
  assumes "1 \<le> a" "1 \<le> b"
  shows "1 \<le> a * b"
  using mult_mono[of 1 a 1 b] assms by simp

lemma weight_x_bounds:
  assumes "- 1 \<le> j" "j \<le> int w"
  shows "0 \<le> weight_x s w j" "weight_x s w j \<le> (real w + 1) * (real w + 1)"
proof -
  note fb = factor_up_bounds[OF assms, where P = "''+x'' |\<in>| bloom s"]
    factor_down_bounds[OF assms, where Q = "''-x'' |\<in>| bloom s"]
  show "0 \<le> weight_x s w j" unfolding weight_x_def by (rule product_bounds(1)[OF fb])
  show "weight_x s w j \<le> (real w + 1) * (real w + 1)"
    unfolding weight_x_def by (rule product_bounds(2)[OF fb])
qed

lemma weight_y_bounds:
  assumes "- 1 \<le> i" "i \<le> int h"
  shows "0 \<le> weight_y s h i" "weight_y s h i \<le> (real h + 1) * (real h + 1)"
proof -
  note fb = factor_up_bounds[OF assms, where P = "''+y'' |\<in>| bloom s"]
    factor_down_bounds[OF assms, where Q = "''-y'' |\<in>| bloom s"]
  show "0 \<le> weight_y s h i" unfolding weight_y_def by (rule product_bounds(1)[OF fb])
  show "weight_y s h i \<le> (real h + 1) * (real h + 1)"
    unfolding weight_y_def by (rule product_bounds(2)[OF fb])
qed

lemma weight_x_inside: "0 \<le> j \<Longrightarrow> j < int w \<Longrightarrow> 1 \<le> weight_x s w j"
  unfolding weight_x_def by (rule product_ge_one) (rule factor_bounds_inside; assumption)+

lemma weight_y_inside: "0 \<le> i \<Longrightarrow> i < int h \<Longrightarrow> 1 \<le> weight_y s h i"
  unfolding weight_y_def by (rule product_ge_one) (rule factor_bounds_inside; assumption)+

lemma weight_ring:
  assumes "- 1 \<le> i" "i \<le> int h" "- 1 \<le> j" "j \<le> int w"
  shows "0 \<le> weight s h w i j" "weight s h w i j \<le> weight_max h w"
  unfolding weight_def weight_max_def
  using weight_x_bounds[OF assms(3,4), of s] weight_y_bounds[OF assms(1,2), of s] by auto

lemma weight_inside:
  assumes "0 \<le> i" "i < int h" "0 \<le> j" "j < int w"
  shows "1 \<le> weight s h w i j"
  unfolding weight_def
  using weight_x_inside[OF assms(3,4), of s] weight_y_inside[OF assms(1,2), of s] by auto

lemma weight_max_pos: "1 \<le> weight_max h w"
proof -
  have "1 \<le> (real h + 1) * (real h + 1)" by (simp add: mult_ge1_I)
  moreover have "0 \<le> (real w + 1) * (real w + 1)" by simp
  ultimately show ?thesis unfolding weight_max_def by linarith
qed

lemma inflow_weight:
  assumes "0 \<le> i" "i < int h" "0 \<le> j" "j < int w"
  shows "inflow s (weight s h w) i j \<le> weight s h w i j - 1"
proof -
  have "0 \<le> weight s h w i j - 1" using weight_inside[OF assms, of s] by simp
  from frac_directions[OF this, of "bloom s"] show ?thesis
    unfolding inflow_def weight_neighbours .
qed

lemma inflow_excess_nonneg: "0 \<le> inflow s (at0 (excess s px)) i j"
  by (rule inflow_nonneg) (rule at0_excess_nonneg)

lemma excess_step:
  assumes sh: "is_shape px h w" and ij: "0 \<le> i" "i < int h" "0 \<le> j" "j < int w"
  shows "at0 (excess s (bloom_body s px)) i j \<le> inflow s (at0 (excess s px)) i j"
    and "inflow s (at0 (excess s px)) i j < 1 \<Longrightarrow> at0 (excess s (bloom_body s px)) i j = 0"
proof -
  let ?I = "inflow s (at0 (excess s px)) i j"
  from ij have n: "nat i < h" "nat j < w" by linarith+
  have I0: "0 \<le> ?I" by (rule inflow_excess_nonneg)
  have e: "at0 (excess s (bloom_body s px)) i j =
           max 0 (min (px ! nat i ! nat j) (full_well s) + of_int \<lfloor>?I\<rfloor> - full_well s)"
    using bloom_body_nth[OF sh n, of s] ij
    by (simp add: at0_excess_shape[OF bloom_body_shape[OF sh]])
  have fl: "of_int \<lfloor>?I\<rfloor> \<le> ?I" by (rule of_int_floor_le)
  have cap: "min (px ! nat i ! nat j) (full_well s) \<le> full_well s" by simp
  from cap fl have "min (px ! nat i ! nat j) (full_well s) + of_int \<lfloor>?I\<rfloor> - full_well s \<le> ?I"
    by linarith
  with I0 show "at0 (excess s (bloom_body s px)) i j \<le> ?I"
    unfolding e by (rule max.boundedI)
  show "at0 (excess s (bloom_body s px)) i j = 0" if "?I < 1"
  proof -
    from that I0 have "\<lfloor>?I\<rfloor> = 0" by (simp add: floor_eq_iff)
    with cap have "min (px ! nat i ! nat j) (full_well s) + of_int \<lfloor>?I\<rfloor> - full_well s \<le> 0"
      by simp
    then show ?thesis unfolding e by (rule max.absorb1)
  qed
qed

lemma at0_outside:
  assumes "is_shape px h w" "\<not> (0 \<le> i \<and> i < int h \<and> 0 \<le> j \<and> j < int w)"
  shows "at0 (excess s px) i j = 0"
  using assms(2) by (auto simp: at0_excess_shape[OF assms(1)])

lemma funpow_shape: "is_shape px h w \<Longrightarrow> is_shape ((bloom_body s ^^ t) px) h w"
  by (induction t) (simp_all add: bloom_body_shape)

lemma excess_decay:
  assumes sh: "is_shape px h w" and M: "0 \<le> M" "\<And>i j. at0 (excess s px) i j \<le> M"
    and ring: "- 1 \<le> i" "i \<le> int h" "- 1 \<le> j" "j \<le> int w"
  shows "at0 (excess s ((bloom_body s ^^ t) px)) i j \<le>
         M * (1 - 1 / weight_max h w) ^ t * weight s h w i j"
  using ring
proof (induction t arbitrary: i j)
  case 0
  show ?case
  proof (cases "0 \<le> i \<and> i < int h \<and> 0 \<le> j \<and> j < int w")
    case True
    then have "1 \<le> weight s h w i j" by (simp add: weight_inside)
    then have "M * 1 \<le> M * weight s h w i j" using M(1) by (intro mult_left_mono)
    with M(2)[of i j] show ?thesis by simp
  next
    case False
    from weight_ring(1)[OF 0] M(1) have "0 \<le> M * weight s h w i j" by simp
    with at0_outside[OF sh False, of s] show ?thesis by simp
  qed
next
  case (Suc t)
  let ?q = "1 - 1 / weight_max h w"
  let ?c = "M * ?q ^ t"
  let ?px = "(bloom_body s ^^ t) px"
  have sht: "is_shape ?px h w" by (rule funpow_shape[OF sh])
  have wm: "1 \<le> weight_max h w" by (rule weight_max_pos)
  then have q0: "0 \<le> ?q" by simp
  have c0: "0 \<le> ?c" using M(1) q0 by simp
  show ?case
  proof (cases "0 \<le> i \<and> i < int h \<and> 0 \<le> j \<and> j < int w")
    case True
    then have ij: "0 \<le> i" "i < int h" "0 \<le> j" "j < int w" by simp_all
    have "at0 (excess s ((bloom_body s ^^ Suc t) px)) i j \<le> inflow s (at0 (excess s ?px)) i j"
      using excess_step(1)[OF sht ij, of s] by simp
    also have "\<dots> \<le> inflow s (\<lambda>i j. ?c * weight s h w i j) i j"
      using ij by (intro inflow_mono Suc.IH) simp_all
    also have "\<dots> = ?c * inflow s (weight s h w) i j" by (rule inflow_scale)
    also have "\<dots> \<le> ?c * (weight s h w i j - 1)"
      by (intro mult_left_mono inflow_weight ij c0)
    also have "\<dots> \<le> ?c * (?q * weight s h w i j)"
    proof (intro mult_left_mono c0)
      have "weight s h w i j \<le> weight_max h w"
        by (rule weight_ring(2)[OF Suc.prems])
      then have "weight s h w i j / weight_max h w \<le> 1" using wm by (simp add: divide_le_eq)
      then show "weight s h w i j - 1 \<le> ?q * weight s h w i j" by (simp add: algebra_simps)
    qed
    finally show ?thesis by (simp add: mult.assoc mult.left_commute)
  next
    case False
    have "0 \<le> M * ?q ^ Suc t * weight s h w i j"
      using weight_ring(1)[OF Suc.prems] M(1) q0 by (intro mult_nonneg_nonneg) simp_all
    with at0_outside[OF funpow_shape[OF sh] False, of s "Suc t"] show ?thesis by simp
  qed
qed

lemma at0_bounded: "\<exists>M\<ge>0. \<forall>i j. at0 a i j \<le> M"
proof (intro exI[of _ "Max (insert 0 (set (concat a)))"] conjI allI)
  show "0 \<le> Max (insert 0 (set (concat a)))" by simp
next
  fix i j
  show "at0 a i j \<le> Max (insert 0 (set (concat a)))"
  proof (cases "0 \<le> i \<and> i < int (length a) \<and> 0 \<le> j \<and> j < int (length (a ! nat i))")
    case True
    then have "nat i < length a" "nat j < length (a ! nat i)" by linarith+
    then have "a ! nat i ! nat j \<in> set (concat a)" by (metis nth_mem set_concat UN_I)
    then have "a ! nat i ! nat j \<le> Max (insert 0 (set (concat a)))" by simp
    with True show ?thesis by (simp add: at0_def)
  next
    case False
    then show ?thesis by (auto simp: at0_def)
  qed
qed

lemma bloom_exits:
  assumes sh: "is_shape px h w"
  shows "\<exists>t. \<not> any_excess s ((bloom_body s ^^ t) px)"
proof -
  from at0_bounded[of "excess s px"] obtain M where
    M: "0 \<le> M" "\<And>i j. at0 (excess s px) i j \<le> M" by blast
  let ?W = "weight_max h w"
  let ?q = "1 - 1 / ?W"
  have wm: "1 \<le> ?W" by (rule weight_max_pos)
  then have q: "0 \<le> ?q" "?q < 1" by simp_all
  have "0 < 1 / (M * ?W + 1)" using M(1) wm by (simp add: add_nonneg_pos)
  from real_arch_pow_inv[OF this q(2)] obtain t where t: "?q ^ t < 1 / (M * ?W + 1)" by blast
  define m where "m = M * ?q ^ t * ?W"
  have m0: "0 \<le> m" unfolding m_def using M(1) q(1) wm by simp
  have MW: "0 \<le> M * ?W" using M(1) wm by simp
  have "m = (M * ?W) * ?q ^ t" by (simp add: m_def)
  also have "\<dots> \<le> (M * ?W) * (1 / (M * ?W + 1))"
    using t MW by (intro mult_left_mono) simp_all
  also have "\<dots> < 1" using MW by (simp add: divide_less_eq)
  finally have m1: "m < 1" .
  let ?px = "(bloom_body s ^^ t) px"
  have sht: "is_shape ?px h w" by (rule funpow_shape[OF sh])
  have bound: "at0 (excess s ?px) i j \<le> m"
    if "- 1 \<le> i" "i \<le> int h" "- 1 \<le> j" "j \<le> int w" for i j
  proof -
    have "at0 (excess s ?px) i j \<le> M * ?q ^ t * weight s h w i j"
      by (rule excess_decay[OF sh M that])
    also have "\<dots> \<le> M * ?q ^ t * ?W"
      using weight_ring(2)[OF that, of s] M(1) q(1) by (intro mult_left_mono) simp_all
    finally show ?thesis by (simp add: m_def)
  qed
  have zero: "at0 (excess s (bloom_body s ?px)) (int i) (int j) = 0" if "i < h" "j < w" for i j
  proof -
    have ij: "0 \<le> int i" "int i < int h" "0 \<le> int j" "int j < int w" using that by simp_all
    have "inflow s (at0 (excess s ?px)) (int i) (int j) \<le> m"
      using that by (intro inflow_le_bound m0 bound) simp_all
    with m1 have "inflow s (at0 (excess s ?px)) (int i) (int j) < 1" by simp
    from excess_step(2)[OF sht ij this] show ?thesis .
  qed
  have "\<not> any_excess s (bloom_body s ?px)"
  proof
    assume "any_excess s (bloom_body s ?px)"
    then obtain i j where ij: "i < h" "j < w" "full_well s < bloom_body s ?px ! i ! j"
      unfolding any_excess_iff[OF bloom_body_shape[OF sht]] by blast
    from zero[OF ij(1,2)] ij show False
      by (simp add: at0_excess_shape[OF bloom_body_shape[OF sht]] max_def split: if_splits)
  qed
  then have "\<not> any_excess s ((bloom_body s ^^ Suc t) px)" by simp
  then show ?thesis by blast
qed

subsection \<open>A two-pixel row that halves its excess\<close>






subsection \<open>\<^verbatim>\<open>accumulate\<close> ends on a sensor with the shapes of \<^verbatim>\<open>__init__\<close>\<close>

lemma add_at_shape: "is_shape px h w \<Longrightarrow> is_shape (add_at rcd px) h w"
proof -
  assume sh: "is_shape px h w"
  obtain r c d where rcd: "rcd = ((r, c), d)" by (cases rcd) auto
  show ?thesis
    unfolding rcd add_at_def using sh
    by (cases "r < length px") (auto simp: is_shape_iff nth_list_update)
qed

lemma fold_add_at_shape: "is_shape px h w \<Longrightarrow> is_shape (fold add_at upd px) h w"
  by (induction upd arbitrary: px) (simp_all add: add_at_shape)

lemma well_shaped_pixels:
  "well_shaped s \<Longrightarrow> is_shape p (height_px s) (width_px s) \<Longrightarrow> well_shaped (s\<lparr>pixels := p\<rparr>)"
  by (simp add: well_shaped_def split: bias_t.splits)

lemma deposit_cases:
  "(\<exists>e. deposit poisson lens nx ny bx by s g src = Inl (e, s)) \<or>
   (\<exists>upd g1. deposit poisson lens nx ny bx by s g src =
       Inr (s\<lparr>pixels := fold add_at upd (pixels s)\<rparr>, g1))"
  by (auto simp: deposit_def Let_def split: prod.splits sum.splits)

lemma deposit_well_shaped:
  assumes ws: "well_shaped s"
  shows "well_shaped (sensor_after (deposit poisson lens nx ny bx by s g src))"
proof -
  from ws have px: "is_shape (pixels s) (height_px s) (width_px s)" by (simp add: well_shaped_def)
  from deposit_cases[of poisson lens nx ny bx "by" s g src] show ?thesis
  proof (elim disjE exE)
    fix e assume "deposit poisson lens nx ny bx by s g src = Inl (e, s)"
    with ws show ?thesis by simp
  next
    fix upd g1
    assume "deposit poisson lens nx ny bx by s g src =
       Inr (s\<lparr>pixels := fold add_at upd (pixels s)\<rparr>, g1)"
    with well_shaped_pixels[OF ws fold_add_at_shape[OF px, of upd]] show ?thesis by simp
  qed
qed

lemma deposit_all_well_shaped:
  "well_shaped s \<Longrightarrow>
   well_shaped (sensor_after (deposit_all poisson lens nx ny bx by s g srcs))"
proof (induction srcs arbitrary: s g)
  case Nil
  then show ?case by simp
next
  case (Cons src srcs)
  from deposit_well_shaped[OF Cons.prems, of poisson lens nx ny bx "by" g src] Cons.IH
  show ?case by (auto split: sum.splits)
qed

lemma source_stage_well_shaped:
  "well_shaped s \<Longrightarrow>
   well_shaped (sensor_after (source_stage poisson s g lens et xs ys fl))"
  unfolding source_stage_def applyPSF_def
  by (auto split: sum.splits simp: deposit_all_well_shaped)

lemma background_stage_cases:
  "(\<exists>e. background_stage poisson s g lens et bg = Inl (e, s)) \<or>
   (\<exists>d g1. np_poisson_size poisson g (map_array_like (\<lambda>b. b * et * area lens) bg)
              (height_px s) (width_px s) = Inr (d, g1) \<and>
            background_stage poisson s g lens et bg =
              Inr (s\<lparr>pixels := grid_add (pixels s) (electrons d)\<rparr>, g1))"
  by (simp add: background_stage_def Let_def split: sum.splits prod.splits)

lemma background_stage_well_shaped:
  assumes ws: "well_shaped s"
  shows "well_shaped (sensor_after (background_stage poisson s g lens et bg))"
proof -
  from ws have px: "is_shape (pixels s) (height_px s) (width_px s)" by (simp add: well_shaped_def)
  from background_stage_cases[of poisson s g lens et bg] show ?thesis
  proof (elim disjE exE conjE)
    fix e assume "background_stage poisson s g lens et bg = Inl (e, s)"
    with ws show ?thesis by simp
  next
    fix d g1
    assume p: "np_poisson_size poisson g (map_array_like (\<lambda>b. b * et * area lens) bg)
                 (height_px s) (width_px s) = Inr (d, g1)"
      and r: "background_stage poisson s g lens et bg =
                   Inr (s\<lparr>pixels := grid_add (pixels s) (electrons d)\<rparr>, g1)"
    have "is_shape d (height_px s) (width_px s)"
      by (rule np_poisson_size_shape[OF p])
    from well_shaped_pixels[OF ws grid_add_shape[OF px electrons_shape[OF this]]] r
    show ?thesis by simp
  qed
qed

lemma dark_lambda_shape:
  "well_shaped s \<Longrightarrow> is_shape (dark_lambda s et T) (height_px s) (width_px s)"
  by (simp add: well_shaped_def dark_lambda_def Let_def is_shape_iff)

lemma dark_stage_cases:
  "(\<exists>e. dark_stage poisson s g et T = Inl (e, s)) \<or>
   (\<exists>d g1. np_poisson poisson g (dark_lambda s et T) = Inr (d, g1) \<and>
            dark_stage poisson s g et T =
              Inr (s\<lparr>pixels := grid_add (pixels s) (electrons d)\<rparr>, g1))"
  by (simp add: dark_stage_def split: sum.splits prod.splits)

lemma dark_stage_well_shaped:
  assumes ws: "well_shaped s"
  shows "well_shaped (sensor_after (dark_stage poisson s g et T))"
proof -
  from ws have px: "is_shape (pixels s) (height_px s) (width_px s)" by (simp add: well_shaped_def)
  from dark_stage_cases[of poisson s g et T] show ?thesis
  proof (elim disjE exE conjE)
    fix e assume "dark_stage poisson s g et T = Inl (e, s)"
    with ws show ?thesis by simp
  next
    fix d g1
    assume p: "np_poisson poisson g (dark_lambda s et T) = Inr (d, g1)"
      and r: "dark_stage poisson s g et T =
              Inr (s\<lparr>pixels := grid_add (pixels s) (electrons d)\<rparr>, g1)"
    have "is_shape d (height_px s) (width_px s)"
      by (rule np_poisson_shape[OF p dark_lambda_shape[OF ws]])
    from well_shaped_pixels[OF ws grid_add_shape[OF px electrons_shape[OF this]]] r
    show ?thesis by simp
  qed
qed

lemma applyBloom_returns:
  assumes "well_shaped s"
  shows "\<exists>s'. applyBloom s = Some s'"
proof -
  from assms have "is_shape (pixels s) (height_px s) (width_px s)" by (simp add: well_shaped_def)
  from bloom_exits[OF this, of s] obtain px' where "bloom_loop s (pixels s) = Some px'"
    by (auto simp: bloom_loop_def while_option_def)
  then show ?thesis by (simp add: applyBloom_def)
qed

lemma accumulate_ends:
  assumes ws: "well_shaped s"
  shows "\<exists>r. accumulate poisson s g lens et T xs ys fl bg = Some r"
proof (cases "source_stage poisson s g lens et xs ys fl")
  case (Inl a)
  then show ?thesis by (simp add: accumulate_def)
next
  case (Inr b1)
  then obtain s1 g1 where r1: "source_stage poisson s g lens et xs ys fl = Inr (s1, g1)"
    by (cases b1) auto
  with source_stage_well_shaped[OF ws, of poisson g lens et xs ys fl]
  have ws1: "well_shaped s1" by simp
  show ?thesis
  proof (cases "background_stage poisson s1 g1 lens et bg")
    case (Inl a)
    with r1 show ?thesis by (simp add: accumulate_def)
  next
    case (Inr b2)
    then obtain s2 g2 where r2: "background_stage poisson s1 g1 lens et bg = Inr (s2, g2)"
      by (cases b2) auto
    with background_stage_well_shaped[OF ws1, of poisson g1 lens et bg]
    have ws2: "well_shaped s2" by simp
    show ?thesis
    proof (cases "dark_stage poisson s2 g2 et T")
      case (Inl a)
      with r1 r2 show ?thesis by (simp add: accumulate_def)
    next
      case (Inr b3)
      then obtain s3 g3 where r3: "dark_stage poisson s2 g2 et T = Inr (s3, g3)"
        by (cases b3) auto
      with dark_stage_well_shaped[OF ws2, of poisson g2 et T]
      have "well_shaped s3" by simp
      from applyBloom_returns[OF this] r1 r2 r3 show ?thesis
        by (auto simp: accumulate_def)
    qed
  qed
qed

section \<open>The claims\<close>

subsection \<open>Concrete runs\<close>

lemma small_accumulate:
  "accumulate counting_sampler small_sensor 0 small_lens 1 0 [5] [5] [3] (A0 1) =
   Some (Inr (small_sensor\<lparr>pixels := [[2, 2], [2, 2]]\<rparr>, 12))"
proof -
  have "case accumulate counting_sampler small_sensor 0 small_lens 1 0 [5] [5] [3] (A0 1) of
          Some (Inr (s', g')) \<Rightarrow> pixels s' = [[2, 2], [2, 2]] \<and> g' = 12 | _ \<Rightarrow> False"
    by code_simp
  then obtain s' where
    acc: "accumulate counting_sampler small_sensor 0 small_lens 1 0 [5] [5] [3] (A0 1) =
          Some (Inr (s', 12))" and px: "pixels s' = [[2, 2], [2, 2]]"
    by (auto split: option.splits sum.splits prod.splits)
  from accumulate_config[OF acc] px have "s' = small_sensor\<lparr>pixels := [[2, 2], [2, 2]]\<rparr>"
    by simp
  with acc show ?thesis by simp
qed

lemma small_accumulate_bloom:
  "accumulate counting_sampler (small_sensor\<lparr>bloom := {|''+x''|}\<rparr>) 0
     (small_lens\<lparr>psf := (\<lambda>x y. 1 / 100)\<rparr>) 1 0 [5] [5] [3] (A0 1) =
   Some (Inr (small_sensor\<lparr>bloom := {|''+x''|}, pixels := [[2, 2], [2, 2]]\<rparr>, 12))"
proof -
  have "case accumulate counting_sampler (small_sensor\<lparr>bloom := {|''+x''|}\<rparr>) 0
               (small_lens\<lparr>psf := (\<lambda>x y. 1 / 100)\<rparr>) 1 0 [5] [5] [3] (A0 1) of
          Some (Inr (s', g')) \<Rightarrow> pixels s' = [[2, 2], [2, 2]] \<and> g' = 12 | _ \<Rightarrow> False"
    by code_simp
  then obtain s' where
    acc: "accumulate counting_sampler (small_sensor\<lparr>bloom := {|''+x''|}\<rparr>) 0
            (small_lens\<lparr>psf := (\<lambda>x y. 1 / 100)\<rparr>) 1 0 [5] [5] [3] (A0 1) =
          Some (Inr (s', 12))" and px: "pixels s' = [[2, 2], [2, 2]]"
    by (auto split: option.splits sum.splits prod.splits)
  from accumulate_config[OF acc] px
  have "s' = small_sensor\<lparr>bloom := {|''+x''|}, pixels := [[2, 2], [2, 2]]\<rparr>"
    by simp
  with acc show ?thesis by simp
qed

lemma small_readout:
  "readout counting_sampler small_sensor 0 =
   Inr ([[101, 101], [101, 101]], small_sensor\<lparr>pixels := [[1, 2], [3, 4]]\<rparr>, 4)"
proof -
  have "case readout counting_sampler small_sensor 0 of
          Inr (img, s', g') \<Rightarrow>
            img = [[101, 101], [101, 101]] \<and> pixels s' = [[1, 2], [3, 4]] \<and> g' = 4
        | _ \<Rightarrow> False"
    by code_simp
  then obtain s' where
    r: "readout counting_sampler small_sensor 0 = Inr ([[101, 101], [101, 101]], s', 4)"
    and px: "pixels s' = [[1, 2], [3, 4]]"
    by (auto split: sum.splits prod.splits)
  from readout_config[OF r] px have "s' = small_sensor\<lparr>pixels := [[1, 2], [3, 4]]\<rparr>" by simp
  with r show ?thesis by simp
qed

lemma small_readout_again:
  "readout counting_sampler (small_sensor\<lparr>pixels := [[1, 2], [3, 4]]\<rparr>) 4 =
   Inr ([[101, 101], [101, 101]], small_sensor\<lparr>pixels := [[6, 8], [10, 12]]\<rparr>, 8)"
proof -
  have "case readout counting_sampler (small_sensor\<lparr>pixels := [[1, 2], [3, 4]]\<rparr>) 4 of
          Inr (img, s', g') \<Rightarrow>
            img = [[101, 101], [101, 101]] \<and> pixels s' = [[6, 8], [10, 12]] \<and> g' = 8
        | _ \<Rightarrow> False"
    by code_simp
  then obtain s' where
    r: "readout counting_sampler (small_sensor\<lparr>pixels := [[1, 2], [3, 4]]\<rparr>) 4 =
        Inr ([[101, 101], [101, 101]], s', 8)"
    and px: "pixels s' = [[6, 8], [10, 12]]"
    by (auto split: sum.splits prod.splits)
  from readout_config[OF r] px have "s' = small_sensor\<lparr>pixels := [[6, 8], [10, 12]]\<rparr>" by simp
  with r show ?thesis by simp
qed

lemma small_sensor_well_shaped: "well_shaped small_sensor"
  by (simp add: well_shaped_def small_sensor_def is_shape_def)

lemma small_exposure:
  "exposure counting_sampler (small_sensor\<lparr>bloom := {|''+x''|}\<rparr>) 0
     (small_lens\<lparr>psf := (\<lambda>x y. 1 / 100)\<rparr>) 1 0 [5] [5] [3] (A0 1) =
   Some (Inr ([[101, 101], [101, 101]],
              small_sensor\<lparr>bloom := {|''+x''|}, pixels := [[15, 16], [17, 18]]\<rparr>, 16))"
proof -
  have "case exposure counting_sampler (small_sensor\<lparr>bloom := {|''+x''|}\<rparr>) 0
               (small_lens\<lparr>psf := (\<lambda>x y. 1 / 100)\<rparr>) 1 0 [5] [5] [3] (A0 1) of
          Some (Inr (img, s', g')) \<Rightarrow>
            img = [[101, 101], [101, 101]] \<and> pixels s' = [[15, 16], [17, 18]] \<and> g' = 16
        | _ \<Rightarrow> False"
    by code_simp
  then obtain s' where
    e: "exposure counting_sampler (small_sensor\<lparr>bloom := {|''+x''|}\<rparr>) 0
          (small_lens\<lparr>psf := (\<lambda>x y. 1 / 100)\<rparr>) 1 0 [5] [5] [3] (A0 1) =
        Some (Inr ([[101, 101], [101, 101]], s', 16))"
    and px: "pixels s' = [[15, 16], [17, 18]]"
    by (auto split: option.splits sum.splits prod.splits)
  from exposure_config[OF e] px
  have "s' = small_sensor\<lparr>bloom := {|''+x''|}, pixels := [[15, 16], [17, 18]]\<rparr>" by simp
  with e show ?thesis by simp
qed

lemma small_accumulate_negative_dark:
  "accumulate counting_sampler (small_sensor\<lparr>dark_current := (\<lambda>T. - 1)\<rparr>) 0 small_lens 1 0
     [5] [5] [3] (A0 1) =
   Some (Inl (PoissonNegativeLam,
              small_sensor\<lparr>dark_current := (\<lambda>T. - 1), pixels := [[5, 6], [7, 8]]\<rparr>))"
proof -
  have "case accumulate counting_sampler (small_sensor\<lparr>dark_current := (\<lambda>T. - 1)\<rparr>) 0
               small_lens 1 0 [5] [5] [3] (A0 1) of
          Some (Inl (e, s')) \<Rightarrow> e = PoissonNegativeLam \<and> pixels s' = [[5, 6], [7, 8]]
        | _ \<Rightarrow> False"
    by code_simp
  then obtain s' where
    acc: "accumulate counting_sampler (small_sensor\<lparr>dark_current := (\<lambda>T. - 1)\<rparr>) 0
            small_lens 1 0 [5] [5] [3] (A0 1) = Some (Inl (PoissonNegativeLam, s'))"
    and px: "pixels s' = [[5, 6], [7, 8]]"
    by (auto split: option.splits sum.splits prod.splits)
  from accumulate_config[OF acc] px
  have "s' = small_sensor\<lparr>dark_current := (\<lambda>T. - 1), pixels := [[5, 6], [7, 8]]\<rparr>" by simp
  with acc show ?thesis by simp
qed

lemma small_accumulate_mismatched:
  "accumulate counting_sampler small_sensor 0 small_lens 1 0 [5, 6] [5] [3, 4] (A0 1) =
   Some (Inr (small_sensor\<lparr>pixels := [[2, 2], [2, 2]]\<rparr>, 12))"
proof -
  have "case accumulate counting_sampler small_sensor 0 small_lens 1 0 [5, 6] [5] [3, 4] (A0 1) of
          Some (Inr (s', g')) \<Rightarrow> pixels s' = [[2, 2], [2, 2]] \<and> g' = 12 | _ \<Rightarrow> False"
    by code_simp
  then obtain s' where
    acc: "accumulate counting_sampler small_sensor 0 small_lens 1 0 [5, 6] [5] [3, 4] (A0 1) =
          Some (Inr (s', 12))" and px: "pixels s' = [[2, 2], [2, 2]]"
    by (auto split: option.splits sum.splits prod.splits)
  from accumulate_config[OF acc] px have "s' = small_sensor\<lparr>pixels := [[2, 2], [2, 2]]\<rparr>"
    by simp
  with acc show ?thesis by simp
qed

lemma small_source_stage:
  "source_stage counting_sampler (small_sensor\<lparr>dark_current := (\<lambda>T. - 1)\<rparr>) 0 small_lens 1
     [5] [5] [3] =
   Inr (small_sensor\<lparr>dark_current := (\<lambda>T. - 1), pixels := [[0, 0], [0, 0]]\<rparr>, 4)"
proof -
  let ?r = "source_stage counting_sampler (small_sensor\<lparr>dark_current := (\<lambda>T. - 1)\<rparr>) 0
              small_lens 1 [5] [5] [3]"
  have "case ?r of Inr (s', g') \<Rightarrow> pixels s' = [[0, 0], [0, 0]] \<and> g' = 4 | _ \<Rightarrow> False"
    by code_simp
  then obtain s' where r: "?r = Inr (s', 4)" and px: "pixels s' = [[0, 0], [0, 0]]"
    by (auto split: sum.splits prod.splits)
  from source_stage_config[of counting_sampler "small_sensor\<lparr>dark_current := (\<lambda>T. - 1)\<rparr>"
      0 small_lens 1 "[5]" "[5]" "[3]"] r px
  have "s' = small_sensor\<lparr>dark_current := (\<lambda>T. - 1), pixels := [[0, 0], [0, 0]]\<rparr>" by simp
  with r show ?thesis by simp
qed

lemma small_background_stage:
  "background_stage counting_sampler
     (small_sensor\<lparr>dark_current := (\<lambda>T. - 1), pixels := [[0, 0], [0, 0]]\<rparr>) 4 small_lens 1
     (A0 1) =
   Inr (small_sensor\<lparr>dark_current := (\<lambda>T. - 1), pixels := [[5, 6], [7, 8]]\<rparr>, 8)"
proof -
  let ?r = "background_stage counting_sampler
     (small_sensor\<lparr>dark_current := (\<lambda>T. - 1), pixels := [[0, 0], [0, 0]]\<rparr>) 4 small_lens 1
     (A0 1)"
  have "case ?r of Inr (s', g') \<Rightarrow> pixels s' = [[5, 6], [7, 8]] \<and> g' = 8 | _ \<Rightarrow> False"
    by code_simp
  then obtain s' where r: "?r = Inr (s', 8)" and px: "pixels s' = [[5, 6], [7, 8]]"
    by (auto split: sum.splits prod.splits)
  from background_stage_config[of counting_sampler
      "small_sensor\<lparr>dark_current := (\<lambda>T. - 1), pixels := [[0, 0], [0, 0]]\<rparr>" 4 small_lens 1
      "A0 1"] r px
  have "s' = small_sensor\<lparr>dark_current := (\<lambda>T. - 1), pixels := [[5, 6], [7, 8]]\<rparr>" by simp
  with r show ?thesis by simp
qed

lemma gain_sensor_well_shaped: "well_shaped (small_sensor\<lparr>gain := 2, adc_limit := 107\<rparr>)"
  by (simp add: well_shaped_def small_sensor_def is_shape_def)

lemma gain_readout:
  "readout counting_sampler (small_sensor\<lparr>gain := 2, adc_limit := 107\<rparr>) 0 =
   Inr ([[102, 104], [106, 107]],
        small_sensor\<lparr>gain := 2, adc_limit := 107, pixels := [[1, 2], [3, 4]]\<rparr>, 4)"
proof -
  have "case readout counting_sampler (small_sensor\<lparr>gain := 2, adc_limit := 107\<rparr>) 0 of
          Inr (img, s', g') \<Rightarrow>
            img = [[102, 104], [106, 107]] \<and> pixels s' = [[1, 2], [3, 4]] \<and> g' = 4
        | _ \<Rightarrow> False"
    by code_simp
  then obtain s' where
    r: "readout counting_sampler (small_sensor\<lparr>gain := 2, adc_limit := 107\<rparr>) 0 =
        Inr ([[102, 104], [106, 107]], s', 4)"
    and px: "pixels s' = [[1, 2], [3, 4]]"
    by (auto split: sum.splits prod.splits)
  from readout_config[OF r] px
  have "s' = small_sensor\<lparr>gain := 2, adc_limit := 107, pixels := [[1, 2], [3, 4]]\<rparr>" by simp
  with r show ?thesis by simp
qed

lemma gain_draws:
  "np_poisson_size counting_sampler 0
     (A0 (read_noise (small_sensor\<lparr>gain := 2, adc_limit := 107\<rparr>)))
     (height_px (small_sensor\<lparr>gain := 2, adc_limit := 107\<rparr>))
     (width_px (small_sensor\<lparr>gain := 2, adc_limit := 107\<rparr>)) =
   Inr ([[1, 2], [3, 4]], 4)"
  by code_simp

subsection \<open>C1: the quadrature step\<close>

text \<open>
  C1 says that the sample counts are chosen so that the trapezoidal step
  \<open>px_len / (n - 1)\<close> is at most \<open>lens.psf_resolution\<close>. The source takes
  \<open>n = max(2, ceil(px_len / psf_resolution))\<close>, the number of intervals of that width,
  as the number of sample points: with a pixel of 10 microns and a resolution of
  5 microns it samples 2 points, and the step is 10 microns.
\<close>

theorem sample_step_exceeds_resolution:
  "sample_count 10 5 = Inr 2 \<and> \<not> sample_step 10 2 \<le> 5"
  by (simp add: sample_count_def int_ceil_ratio_def sample_step_def)

text \<open>What the choice of the source does give: the pixel side over \<open>n\<close>, not over \<open>n - 1\<close>.\<close>

lemma sample_count_bound:
  assumes "0 < res" and "sample_count px_len res = Inr n"
  shows "2 \<le> n \<and> px_len / of_int n \<le> res"
proof -
  from assms have n: "n = max 2 \<lceil>px_len / res\<rceil>"
    by (auto simp: sample_count_def int_ceil_ratio_def)
  then have "px_len / res \<le> of_int n"
    by (metis le_of_int_ceiling max.cobounded2 of_int_le_iff order_trans)
  moreover from n have "0 < n" by simp
  ultimately have "px_len \<le> res * of_int n"
    using assms(1) by (simp add: pos_divide_le_eq mult.commute)
  with \<open>0 < n\<close> n show ?thesis by (simp add: pos_divide_le_eq)
qed

subsection \<open>C2: errors of \<open>accumulate\<close> and the buffer\<close>

text \<open>
  C2 says that every failing input of \<open>accumulate\<close> is reported at its entry, before
  the first write to \<open>pixels\<close>. The source has no check at the entry of \<open>accumulate\<close>.
  A dark current of -1 raises only when the dark counts are drawn, after the source
  and background stages have written: the buffer, all zero before the call, holds the
  background counts when the error is raised. Coordinate and flux arrays of different
  lengths raise nothing: \<^verbatim>\<open>zip\<close> stops at the shortest, and the call returns.
\<close>

theorem accumulate_not_validated_at_entry:
  "accumulate counting_sampler (small_sensor\<lparr>dark_current := (\<lambda>T. - 1)\<rparr>) 0 small_lens 1 0
     [5] [5] [3] (A0 1) =
   Some (Inl (PoissonNegativeLam,
              small_sensor\<lparr>dark_current := (\<lambda>T. - 1), pixels := [[5, 6], [7, 8]]\<rparr>)) \<and>
   pixels (small_sensor\<lparr>dark_current := (\<lambda>T. - 1), pixels := [[5, 6], [7, 8]]\<rparr>) \<noteq>
   pixels (small_sensor\<lparr>dark_current := (\<lambda>T. - 1)\<rparr>) \<and>
   accumulate counting_sampler small_sensor 0 small_lens 1 0 [5, 6] [5] [3, 4] (A0 1) =
   Some (Inr (small_sensor\<lparr>pixels := [[2, 2], [2, 2]]\<rparr>, 12))"
  using small_accumulate_negative_dark small_accumulate_mismatched
  by (simp add: small_sensor_def)

text \<open>
  C2 as amended: when the source and background stages have gone through and the
  mean of the dark counts is negative at some pixel, \<open>accumulate\<close> raises the error of
  \<^verbatim>\<open>np.random.poisson\<close>, and it leaves the sensor as those two stages left it: the
  configuration unchanged, the buffer with the source deposits and the background
  counts added, no dark counts added and no bloom applied.
\<close>

theorem negative_dark_mean_raises:
  assumes "source_stage poisson s g lens et xs ys fl = Inr (s1, g1)"
    and "background_stage poisson s1 g1 lens et bg = Inr (s2, g2)"
    and "list_ex (list_ex (\<lambda>l. l < 0)) (dark_lambda s et T)"
  shows "accumulate poisson s g lens et T xs ys fl bg = Some (Inl (PoissonNegativeLam, s2)) \<and>
         s1 = s\<lparr>pixels := pixels s1\<rparr> \<and>
         (\<exists>d. s2 = s\<lparr>pixels := grid_add (pixels s1) (electrons d)\<rparr>)"
proof -
  from source_stage_config[of poisson s g lens et xs ys fl] assms(1)
  have s1: "s1 = s\<lparr>pixels := pixels s1\<rparr>" by simp
  from assms(2) obtain d where "s2 = s1\<lparr>pixels := grid_add (pixels s1) (electrons d)\<rparr>"
    by (auto simp: background_stage_def split: sum.splits prod.splits)
  with s1 have s2: "s2 = s\<lparr>pixels := grid_add (pixels s1) (electrons d)\<rparr>"
    by (metis sensor.update_convs(3) sensor.surjective)
  then have "dark_lambda s2 et T = dark_lambda s et T"
    by (metis dark_lambda_config)
  with assms(3) have "dark_stage poisson s2 g2 et T = Inl (PoissonNegativeLam, s2)"
    by (simp add: dark_stage_def np_poisson_def)
  with assms(1,2) have "accumulate poisson s g lens et T xs ys fl bg =
                        Some (Inl (PoissonNegativeLam, s2))"
    by (simp add: accumulate_def)
  with s1 s2 show ?thesis by blast
qed

theorem negative_dark_mean_raises_witness:
  "source_stage counting_sampler (small_sensor\<lparr>dark_current := (\<lambda>T. - 1)\<rparr>) 0 small_lens 1
     [5] [5] [3] =
     Inr (small_sensor\<lparr>dark_current := (\<lambda>T. - 1), pixels := [[0, 0], [0, 0]]\<rparr>, 4) \<and>
   background_stage counting_sampler
     (small_sensor\<lparr>dark_current := (\<lambda>T. - 1), pixels := [[0, 0], [0, 0]]\<rparr>) 4 small_lens 1
     (A0 1) =
     Inr (small_sensor\<lparr>dark_current := (\<lambda>T. - 1), pixels := [[5, 6], [7, 8]]\<rparr>, 8) \<and>
   list_ex (list_ex (\<lambda>l. l < 0))
     (dark_lambda (small_sensor\<lparr>dark_current := (\<lambda>T. - 1)\<rparr>) 1 0) \<and>
   accumulate counting_sampler (small_sensor\<lparr>dark_current := (\<lambda>T. - 1)\<rparr>) 0 small_lens 1 0
     [5] [5] [3] (A0 1) =
     Some (Inl (PoissonNegativeLam,
                small_sensor\<lparr>dark_current := (\<lambda>T. - 1), pixels := [[5, 6], [7, 8]]\<rparr>))"
proof -
  have neg: "list_ex (list_ex (\<lambda>l. l < 0))
     (dark_lambda (small_sensor\<lparr>dark_current := (\<lambda>T. - 1)\<rparr>) 1 0)"
    by (simp add: dark_lambda_def small_sensor_def Let_def)
  from negative_dark_mean_raises[OF small_source_stage small_background_stage neg]
    small_source_stage small_background_stage neg
  show ?thesis by blast
qed

subsection \<open>C3: the bloom loop ends\<close>




subsection \<open>C4: without bloom the buffer is clipped at the full well\<close>

text \<open>
  C4: for a sensor with an empty \<open>bloom\<close> set, when \<open>accumulate\<close> returns, every
  element of \<open>pixels\<close> is at most \<open>full_well\<close>. (By \<open>accumulate_ends\<close> the call
  always ends, by returning or by raising.)
\<close>

theorem no_bloom_at_most_full_well:
  assumes "bloom s = {||}"
    and "accumulate poisson s g lens et T xs ys fl bg = Some (Inr (s', g'))"
  shows "at_most (full_well s) (pixels s')"
proof -
  from accumulate_returns[OF assms(2)] obtain s3 where b: "applyBloom s3 = Some s'"
    by blast
  from accumulate_config[OF assms(2)] have c: "s' = s\<lparr>pixels := pixels s'\<rparr>" by simp
  from applyBloom_config[OF b] have "s' = s3\<lparr>pixels := pixels s'\<rparr>" .
  with c have "bloom s3 = bloom s" "full_well s3 = full_well s"
    by (metis sensor.select_convs sensor.surjective sensor.update_convs(3))+
  with applyBloom_no_bloom[OF _ b] assms(1) show ?thesis by simp
qed

theorem no_bloom_at_most_full_well_witness:
  "bloom small_sensor = {||} \<and>
   accumulate counting_sampler small_sensor 0 small_lens 1 0 [5] [5] [3] (A0 1) =
     Some (Inr (small_sensor\<lparr>pixels := [[2, 2], [2, 2]]\<rparr>, 12)) \<and>
   at_most (full_well small_sensor) (pixels (small_sensor\<lparr>pixels := [[2, 2], [2, 2]]\<rparr>))"
proof -
  have b: "bloom small_sensor = {||}" by (simp add: small_sensor_def)
  from no_bloom_at_most_full_well[OF b small_accumulate] b small_accumulate
  show ?thesis by blast
qed

subsection \<open>C5: the buffer stays non-negative\<close>

text \<open>
  C5: for a sensor with \<open>full_well \<ge> 0\<close> and a non-negative pixel buffer, when
  \<open>accumulate\<close> returns every element of \<open>pixels\<close> is non-negative. Each stage keeps
  the buffer non-negative (lemmas \<open>source_stage_nonneg\<close>, \<open>background_stage_nonneg\<close>,
  \<open>dark_stage_nonneg\<close>, \<open>applyBloom_nonneg\<close>).
\<close>

theorem accumulate_nonneg:
  assumes "0 \<le> full_well s" and "nonneg (pixels s)"
    and "accumulate poisson s g lens et T xs ys fl bg = Some (Inr (s', g'))"
  shows "nonneg (pixels s')"
proof -
  from accumulate_returns[OF assms(3)] obtain s1 g1 s2 g2 s3 where
    st: "source_stage poisson s g lens et xs ys fl = Inr (s1, g1)"
        "background_stage poisson s1 g1 lens et bg = Inr (s2, g2)"
        "dark_stage poisson s2 g2 et T = Inr (s3, g')"
        "applyBloom s3 = Some s'"
    by blast
  from source_stage_nonneg[OF assms(2), of poisson g lens et xs ys fl] st(1)
  have n1: "nonneg (pixels s1)" by simp
  from background_stage_nonneg[OF n1, of poisson g1 lens et bg] st(2)
  have n2: "nonneg (pixels s2)" by simp
  from dark_stage_nonneg[OF n2, of poisson g2 et T] st(3)
  have n3: "nonneg (pixels s3)" by simp
  have "full_well s3 = full_well s"
    using source_stage_config[of poisson s g lens et xs ys fl]
      background_stage_config[of poisson s1 g1 lens et bg]
      dark_stage_config[of poisson s2 g2 et T] st
    by (metis sensor_after_simps(2) sensor.select_convs(17) sensor.surjective
        sensor.update_convs(3))
  with applyBloom_nonneg[OF _ n3 st(4)] assms(1) show ?thesis by simp
qed

theorem accumulate_nonneg_witness:
  "0 \<le> full_well (small_sensor\<lparr>bloom := {|''+x''|}\<rparr>) \<and>
   nonneg (pixels (small_sensor\<lparr>bloom := {|''+x''|}\<rparr>)) \<and>
   accumulate counting_sampler (small_sensor\<lparr>bloom := {|''+x''|}\<rparr>) 0
     (small_lens\<lparr>psf := (\<lambda>x y. 1 / 100)\<rparr>) 1 0 [5] [5] [3] (A0 1) =
     Some (Inr (small_sensor\<lparr>bloom := {|''+x''|}, pixels := [[2, 2], [2, 2]]\<rparr>, 12)) \<and>
   nonneg (pixels (small_sensor\<lparr>bloom := {|''+x''|}, pixels := [[2, 2], [2, 2]]\<rparr>))"
proof -
  have f: "0 \<le> full_well (small_sensor\<lparr>bloom := {|''+x''|}\<rparr>)"
    by (simp add: small_sensor_def)
  have n: "nonneg (pixels (small_sensor\<lparr>bloom := {|''+x''|}\<rparr>))"
    by (simp add: small_sensor_def nonneg_def)
  from accumulate_nonneg[OF f n small_accumulate_bloom] f n small_accumulate_bloom
  show ?thesis by blast
qed

subsection \<open>C6: the digital image\<close>

text \<open>
  C6: \<open>readout\<close> returns \<open>min(floor(pixels * gain) + bias, adc_limit)\<close> as an array of
  shape (height_px, width_px) whose entries are integers and at most \<open>adc_limit\<close>.
  Here \<open>pixels\<close> is the buffer of the sensor at the call with the read noise added:
  entry by entry the buffer before the call plus the counts \<open>d\<close> that
  \<^verbatim>\<open>np.random.poisson(read_noise, (height_px, width_px))\<close> draws from the generator
  state of the call, which is also the buffer the call leaves. The sensor has the
  shapes of \<^verbatim>\<open>__init__\<close>, and its \<open>read_noise\<close>, a Poisson mean, is not negative (a
  negative one makes \<^verbatim>\<open>np.random.poisson\<close> raise).
\<close>

theorem readout_image:
  assumes "well_shaped s" and "0 \<le> read_noise s"
  shows "\<exists>img s' g' d. readout poisson s g = Inr (img, s', g') \<and>
           np_poisson_size poisson g (A0 (read_noise s)) (height_px s) (width_px s) =
             Inr (d, g') \<and>
           is_shape d (height_px s) (width_px s) \<and>
           is_shape img (height_px s) (width_px s) \<and>
           s' = s\<lparr>pixels := pixels s'\<rparr> \<and>
           (\<forall>i<height_px s. \<forall>j<width_px s.
              (\<exists>gk. d ! i ! j = fst (poisson gk (read_noise s))) \<and>
              pixels s' ! i ! j = pixels s ! i ! j + real (d ! i ! j) \<and>
              img ! i ! j =
                min (of_int \<lfloor>(pixels s ! i ! j + real (d ! i ! j)) * gain s\<rfloor> +
                     of_int (bias_at (bias s) i j))
                    (of_int (adc_limit s)) \<and>
              img ! i ! j \<in> \<int> \<and> img ! i ! j \<le> of_int (adc_limit s))"
proof -
  from readout_returns[OF assms(2), of poisson g] obtain img s' g' where
    r: "readout poisson s g = Inr (img, s', g')" by blast
  from readout_draws[OF assms(1) r] obtain d where
    d: "np_poisson_size poisson g (A0 (read_noise s)) (height_px s) (width_px s) = Inr (d, g')"
    and sh: "is_shape d (height_px s) (width_px s)"
    and pt: "\<forall>i<height_px s. \<forall>j<width_px s.
                pixels s' ! i ! j = pixels s ! i ! j + real (d ! i ! j) \<and>
                (\<exists>gk. d ! i ! j = fst (poisson gk (read_noise s)))"
    and c: "s' = s\<lparr>pixels := pixels s'\<rparr>"
    and ws: "well_shaped s'" and img: "img = digitize s'" by blast
  from c have f: "height_px s' = height_px s" "width_px s' = width_px s" "gain s' = gain s"
    "bias s' = bias s" "adc_limit s' = adc_limit s"
    by (metis sensor.select_convs sensor.surjective sensor.update_convs(3))+
  have shi: "is_shape img (height_px s) (width_px s)"
    using digitize_shape[OF ws] img f by simp
  have "\<forall>i<height_px s. \<forall>j<width_px s.
              (\<exists>gk. d ! i ! j = fst (poisson gk (read_noise s))) \<and>
              pixels s' ! i ! j = pixels s ! i ! j + real (d ! i ! j) \<and>
              img ! i ! j =
                min (of_int \<lfloor>(pixels s ! i ! j + real (d ! i ! j)) * gain s\<rfloor> +
                     of_int (bias_at (bias s) i j))
                    (of_int (adc_limit s)) \<and>
              img ! i ! j \<in> \<int> \<and> img ! i ! j \<le> of_int (adc_limit s)"
  proof (intro allI impI)
    fix i j assume ij: "i < height_px s" "j < width_px s"
    from pt ij have p: "pixels s' ! i ! j = pixels s ! i ! j + real (d ! i ! j)"
      and dr: "\<exists>gk. d ! i ! j = fst (poisson gk (read_noise s))" by blast+
    from digitize_nth[OF ws, of i j] f img ij
    have "img ! i ! j = min (of_int \<lfloor>pixels s' ! i ! j * gain s\<rfloor> +
            of_int (bias_at (bias s) i j)) (of_int (adc_limit s))" by simp
    then have e: "img ! i ! j =
                min (of_int \<lfloor>(pixels s ! i ! j + real (d ! i ! j)) * gain s\<rfloor> +
                     of_int (bias_at (bias s) i j))
                    (of_int (adc_limit s))" unfolding p .
    have "min (of_int \<lfloor>(pixels s ! i ! j + real (d ! i ! j)) * gain s\<rfloor> +
              of_int (bias_at (bias s) i j)) (of_int (adc_limit s)) =
          (of_int (min (\<lfloor>(pixels s ! i ! j + real (d ! i ! j)) * gain s\<rfloor> +
                        bias_at (bias s) i j) (adc_limit s)) :: real)"
      by (simp add: min_def)
    then have z: "img ! i ! j \<in> \<int>" using e by (metis Ints_of_int)
    from e have le: "img ! i ! j \<le> of_int (adc_limit s)" by simp
    from dr p e z le show "(\<exists>gk. d ! i ! j = fst (poisson gk (read_noise s))) \<and>
              pixels s' ! i ! j = pixels s ! i ! j + real (d ! i ! j) \<and>
              img ! i ! j =
                min (of_int \<lfloor>(pixels s ! i ! j + real (d ! i ! j)) * gain s\<rfloor> +
                     of_int (bias_at (bias s) i j))
                    (of_int (adc_limit s)) \<and>
              img ! i ! j \<in> \<int> \<and> img ! i ! j \<le> of_int (adc_limit s)" by blast
  qed
  with r d sh shi c show ?thesis by blast
qed

theorem readout_image_witness:
  "well_shaped (small_sensor\<lparr>gain := 2, adc_limit := 107\<rparr>) \<and>
   0 \<le> read_noise (small_sensor\<lparr>gain := 2, adc_limit := 107\<rparr>) \<and>
   pixels (small_sensor\<lparr>gain := 2, adc_limit := 107\<rparr>) = [[0, 0], [0, 0]] \<and>
   np_poisson_size counting_sampler 0
     (A0 (read_noise (small_sensor\<lparr>gain := 2, adc_limit := 107\<rparr>)))
     (height_px (small_sensor\<lparr>gain := 2, adc_limit := 107\<rparr>))
     (width_px (small_sensor\<lparr>gain := 2, adc_limit := 107\<rparr>)) =
     Inr ([[1, 2], [3, 4]], 4) \<and>
   readout counting_sampler (small_sensor\<lparr>gain := 2, adc_limit := 107\<rparr>) 0 =
     Inr ([[102, 104], [106, 107]],
          small_sensor\<lparr>gain := 2, adc_limit := 107, pixels := [[1, 2], [3, 4]]\<rparr>, 4) \<and>
   is_shape [[102, 104], [106, 107 :: real]] 2 2 \<and>
   [[102, 104], [106, 107]] ! 0 ! 0 =
     min (of_int \<lfloor>([[0, 0], [0, 0]] ! 0 ! 0 + real ([[1, 2], [3, 4]] ! 0 ! 0)) * 2\<rfloor> +
          of_int (bias_at (BiasScalar 100) 0 0))
         (of_int 107 :: real) \<and>
   [[102, 104], [106, 107 :: real]] ! 0 ! 0 \<in> \<int> \<and>
   [[102, 104], [106, 107 :: real]] ! 0 ! 0 \<le> of_int 107 \<and>
   [[102, 104], [106, 107]] ! 0 ! 1 =
     min (of_int \<lfloor>([[0, 0], [0, 0]] ! 0 ! 1 + real ([[1, 2], [3, 4]] ! 0 ! 1)) * 2\<rfloor> +
          of_int (bias_at (BiasScalar 100) 0 1))
         (of_int 107 :: real) \<and>
   [[102, 104], [106, 107 :: real]] ! 0 ! 1 \<in> \<int> \<and>
   [[102, 104], [106, 107 :: real]] ! 0 ! 1 \<le> of_int 107 \<and>
   [[102, 104], [106, 107]] ! 1 ! 0 =
     min (of_int \<lfloor>([[0, 0], [0, 0]] ! 1 ! 0 + real ([[1, 2], [3, 4]] ! 1 ! 0)) * 2\<rfloor> +
          of_int (bias_at (BiasScalar 100) 1 0))
         (of_int 107 :: real) \<and>
   [[102, 104], [106, 107 :: real]] ! 1 ! 0 \<in> \<int> \<and>
   [[102, 104], [106, 107 :: real]] ! 1 ! 0 \<le> of_int 107 \<and>
   [[102, 104], [106, 107]] ! 1 ! 1 =
     min (of_int \<lfloor>([[0, 0], [0, 0]] ! 1 ! 1 + real ([[1, 2], [3, 4]] ! 1 ! 1)) * 2\<rfloor> +
          of_int (bias_at (BiasScalar 100) 1 1))
         (of_int 107 :: real) \<and>
   [[102, 104], [106, 107 :: real]] ! 1 ! 1 \<in> \<int> \<and>
   [[102, 104], [106, 107 :: real]] ! 1 ! 1 \<le> of_int 107"
proof -
  let ?s = "small_sensor\<lparr>gain := 2, adc_limit := 107\<rparr>"
  have n: "0 \<le> read_noise ?s" by (simp add: small_sensor_def)
  have f: "pixels ?s = [[0, 0], [0, 0]]" "height_px ?s = 2" "width_px ?s = 2" "gain ?s = 2"
    "adc_limit ?s = 107" "bias ?s = BiasScalar 100"
    by (simp_all add: small_sensor_def)
  from readout_image[OF gain_sensor_well_shaped n, of counting_sampler 0]
  obtain img s' g' d where
    r: "readout counting_sampler ?s 0 = Inr (img, s', g')"
    and d: "np_poisson_size counting_sampler 0 (A0 (read_noise ?s)) (height_px ?s) (width_px ?s) =
            Inr (d, g')"
    and shi: "is_shape img (height_px ?s) (width_px ?s)"
    and pt: "\<forall>i<height_px ?s. \<forall>j<width_px ?s.
              img ! i ! j =
                min (of_int \<lfloor>(pixels ?s ! i ! j + real (d ! i ! j)) * gain ?s\<rfloor> +
                     of_int (bias_at (bias ?s) i j))
                    (of_int (adc_limit ?s)) \<and>
              img ! i ! j \<in> \<int> \<and> img ! i ! j \<le> of_int (adc_limit ?s)"
    by blast
  from r gain_readout have img: "img = [[102, 104], [106, 107]]" by simp
  from d gain_draws have dd: "d = [[1, 2], [3, 4]]" by simp
  from shi have sh: "is_shape [[102, 104], [106, 107 :: real]] 2 2" unfolding img f .
  have lt: "(0::nat) < 2" "(1::nat) < 2" by simp_all
  note e = pt[unfolded img dd f, rule_format]
  from gain_sensor_well_shaped n f(1) gain_draws gain_readout sh
    e[OF lt(1) lt(1)] e[OF lt(1) lt(2)] e[OF lt(2) lt(1)] e[OF lt(2) lt(2)]
  show ?thesis by blast
qed

subsection \<open>C7: what \<open>readout\<close> does to the sensor\<close>

text \<open>
  C7: a call of \<open>readout\<close> changes the sensor only in its pixel buffer, and there only
  by adding to each pixel one count drawn by the sampler at the mean \<open>read_noise\<close>; a
  second call, with no \<open>clear\<close> in between, adds its draws on top of the first.
\<close>

theorem readout_accumulates_read_noise:
  assumes "well_shaped s"
    and "readout poisson s g = Inr (img1, s1, g1)"
    and "readout poisson s1 g1 = Inr (img2, s2, g2)"
  shows "\<exists>d1 d2. is_shape d1 (height_px s) (width_px s) \<and> is_shape d2 (height_px s) (width_px s) \<and>
           (\<forall>i<height_px s. \<forall>j<width_px s.
              pixels s1 ! i ! j = pixels s ! i ! j + real (d1 ! i ! j) \<and>
              pixels s2 ! i ! j = pixels s ! i ! j + real (d1 ! i ! j) + real (d2 ! i ! j) \<and>
              (\<exists>gk. d1 ! i ! j = fst (poisson gk (read_noise s))) \<and>
              (\<exists>gk. d2 ! i ! j = fst (poisson gk (read_noise s)))) \<and>
           s1 = s\<lparr>pixels := pixels s1\<rparr> \<and> s2 = s\<lparr>pixels := pixels s2\<rparr>"
proof -
  from readout_effect[OF assms(1,2)] obtain d1 where
    d1: "is_shape d1 (height_px s) (width_px s)"
      "\<forall>i<height_px s. \<forall>j<width_px s.
                pixels s1 ! i ! j = pixels s ! i ! j + real (d1 ! i ! j) \<and>
                (\<exists>gk. d1 ! i ! j = fst (poisson gk (read_noise s)))"
      "s1 = s\<lparr>pixels := pixels s1\<rparr>" "well_shaped s1" by blast
  from d1(3) have f: "height_px s1 = height_px s" "width_px s1 = width_px s"
    "read_noise s1 = read_noise s"
    by (metis sensor.select_convs sensor.surjective sensor.update_convs(3))+
  from readout_effect[OF d1(4) assms(3)] f obtain d2 where
    d2: "is_shape d2 (height_px s) (width_px s)"
      "\<forall>i<height_px s. \<forall>j<width_px s.
                pixels s2 ! i ! j = pixels s1 ! i ! j + real (d2 ! i ! j) \<and>
                (\<exists>gk. d2 ! i ! j = fst (poisson gk (read_noise s)))"
      "s2 = s1\<lparr>pixels := pixels s2\<rparr>" by auto
  from config_trans[OF d1(3) d2(3)] have "s2 = s\<lparr>pixels := pixels s2\<rparr>" .
  with d1 d2 show ?thesis by (intro exI[of _ d1] exI[of _ d2]) simp
qed

theorem readout_accumulates_read_noise_witness:
  "well_shaped small_sensor \<and>
   readout counting_sampler small_sensor 0 =
     Inr ([[101, 101], [101, 101]], small_sensor\<lparr>pixels := [[1, 2], [3, 4]]\<rparr>, 4) \<and>
   readout counting_sampler (small_sensor\<lparr>pixels := [[1, 2], [3, 4]]\<rparr>) 4 =
     Inr ([[101, 101], [101, 101]], small_sensor\<lparr>pixels := [[6, 8], [10, 12]]\<rparr>, 8) \<and>
   (\<exists>d1 d2. is_shape d1 (height_px small_sensor) (width_px small_sensor) \<and>
      is_shape d2 (height_px small_sensor) (width_px small_sensor) \<and>
      (\<forall>i<height_px small_sensor. \<forall>j<width_px small_sensor.
         pixels (small_sensor\<lparr>pixels := [[1, 2], [3, 4]]\<rparr>) ! i ! j =
           pixels small_sensor ! i ! j + real (d1 ! i ! j) \<and>
         pixels (small_sensor\<lparr>pixels := [[6, 8], [10, 12]]\<rparr>) ! i ! j =
           pixels small_sensor ! i ! j + real (d1 ! i ! j) + real (d2 ! i ! j)))"
proof -
  from readout_accumulates_read_noise[OF small_sensor_well_shaped small_readout
      small_readout_again]
  obtain d1 d2 where
    "is_shape d1 (height_px small_sensor) (width_px small_sensor)"
    "is_shape d2 (height_px small_sensor) (width_px small_sensor)"
    "\<forall>i<height_px small_sensor. \<forall>j<width_px small_sensor.
         pixels (small_sensor\<lparr>pixels := [[1, 2], [3, 4]]\<rparr>) ! i ! j =
           pixels small_sensor ! i ! j + real (d1 ! i ! j) \<and>
         pixels (small_sensor\<lparr>pixels := [[6, 8], [10, 12]]\<rparr>) ! i ! j =
           pixels small_sensor ! i ! j + real (d1 ! i ! j) + real (d2 ! i ! j)"
    by blast
  with small_sensor_well_shaped small_readout small_readout_again show ?thesis by blast
qed

subsection \<open>C8: reproducible under a fixed generator state\<close>

text \<open>
  C8: with the generator started from the same state and the same lens, exposure
  parameters, sources and background, \<open>clear\<close>, \<open>accumulate\<close>, \<open>readout\<close> give the
  same digital image whatever the pixel buffer held before; in particular a second run
  on the sensor the first run left behind gives the image of the first.
\<close>

theorem exposure_reproducible:
  "image_of (exposure poisson (s\<lparr>pixels := p\<rparr>) g lens et T xs ys fl bg) =
   image_of (exposure poisson s g lens et T xs ys fl bg) \<and>
   (\<forall>img s' g'. exposure poisson s g lens et T xs ys fl bg = Some (Inr (img, s', g')) \<longrightarrow>
      image_of (exposure poisson s' g lens et T xs ys fl bg) = Some (Inr img))"
proof (intro conjI allI impI)
  show "image_of (exposure poisson (s\<lparr>pixels := p\<rparr>) g lens et T xs ys fl bg) =
        image_of (exposure poisson s g lens et T xs ys fl bg)"
    by (simp add: exposure_pixels_irrelevant)
next
  fix img s' g'
  assume e: "exposure poisson s g lens et T xs ys fl bg = Some (Inr (img, s', g'))"
  from exposure_config[OF e] have "s' = s\<lparr>pixels := pixels s'\<rparr>" .
  then have "exposure poisson s' g lens et T xs ys fl bg =
             exposure poisson s g lens et T xs ys fl bg"
    by (metis exposure_pixels_irrelevant)
  with e show "image_of (exposure poisson s' g lens et T xs ys fl bg) = Some (Inr img)"
    by (simp add: image_of_def)
qed

theorem exposure_reproducible_witness:
  "exposure counting_sampler (small_sensor\<lparr>bloom := {|''+x''|}\<rparr>) 0
     (small_lens\<lparr>psf := (\<lambda>x y. 1 / 100)\<rparr>) 1 0 [5] [5] [3] (A0 1) =
   Some (Inr ([[101, 101], [101, 101]],
              small_sensor\<lparr>bloom := {|''+x''|}, pixels := [[15, 16], [17, 18]]\<rparr>, 16)) \<and>
   image_of (exposure counting_sampler
       (small_sensor\<lparr>bloom := {|''+x''|}, pixels := [[15, 16], [17, 18]]\<rparr>) 0
       (small_lens\<lparr>psf := (\<lambda>x y. 1 / 100)\<rparr>) 1 0 [5] [5] [3] (A0 1)) =
   Some (Inr [[101, 101], [101, 101]])"
  using exposure_reproducible[where poisson = counting_sampler
      and s = "small_sensor\<lparr>bloom := {|''+x''|}\<rparr>" and p = "[]" and g = 0
      and lens = "small_lens\<lparr>psf := (\<lambda>x y. 1 / 100)\<rparr>" and et = 1 and T = 0
      and xs = "[5]" and ys = "[5]" and fl = "[3]" and bg = "A0 1"]
    small_exposure
  by blast

subsection \<open>C9: symmetric bloom of one saturated pixel\<close>

text \<open>
  C9: all four directions bloom, the interior pixel in row \<open>r\<close> and column \<open>c\<close> holds
  \<open>full_well + 4k\<close> for a positive integer \<open>k\<close> with \<open>4k \<le> full_well\<close>, and every other
  pixel holds 0. One pass of the loop leaves \<open>full_well\<close> at \<open>(r, c)\<close>, \<open>k\<close> at each of
  its four orthogonal neighbours and 0 elsewhere; the loop then leaves (nothing exceeds
  \<open>full_well\<close>), and any further pass would keep every pixel at most \<open>full_well\<close>.
\<close>

theorem symmetric_bloom:
  fixes k :: nat
  assumes bl: "bloom s = {|''+x'', ''-x'', ''+y'', ''-y''|}"
    and k: "0 < k" and fw: "4 * real k \<le> full_well s"
    and r: "0 < r" "r + 1 < h" and c: "0 < c" "c + 1 < w"
  shows "bloom_body s (tabulate h w (\<lambda>i j. if i = r \<and> j = c then full_well s + 4 * real k else 0)) =
         tabulate h w (\<lambda>i j. if i = r \<and> j = c then full_well s
                               else if (i = r \<and> (j = c + 1 \<or> j + 1 = c)) \<or>
                                       (j = c \<and> (i = r + 1 \<or> i + 1 = r))
                                    then real k else 0) \<and>
         (\<forall>n\<ge>1. at_most (full_well s)
            ((bloom_body s ^^ n)
               (tabulate h w (\<lambda>i j. if i = r \<and> j = c then full_well s + 4 * real k else 0)))) \<and>
         bloom_loop s (tabulate h w (\<lambda>i j. if i = r \<and> j = c then full_well s + 4 * real k else 0)) =
           Some (bloom_body s
             (tabulate h w (\<lambda>i j. if i = r \<and> j = c then full_well s + 4 * real k else 0)))"
proof -
  let ?F = "full_well s"
  let ?px0 = "tabulate h w (\<lambda>i j. if i = r \<and> j = c then ?F + 4 * real k else 0)"
  let ?px1 = "tabulate h w (\<lambda>i j. if i = r \<and> j = c then ?F
                               else if (i = r \<and> (j = c + 1 \<or> j + 1 = c)) \<or>
                                       (j = c \<and> (i = r + 1 \<or> i + 1 = r))
                                    then real k else 0)"
  have sh0: "is_shape ?px0 h w" by (rule tabulate_shape)
  have sh1: "is_shape ?px1 h w" by (rule tabulate_shape)
  from k fw have Fpos: "0 < ?F" by linarith
  have E: "at0 (excess s ?px0) a b = (if a = int r \<and> b = int c then 4 * real k else 0)" for a b
  proof (cases "0 \<le> a \<and> a < int h \<and> 0 \<le> b \<and> b < int w")
    case True
    then have ab: "nat a < h" "nat b < w" by linarith+
    have "(nat a = r \<and> nat b = c) = (a = int r \<and> b = int c)" using True by auto
    with True ab Fpos show ?thesis
      by (simp add: at0_excess_shape[OF sh0] tabulate_nth)
  next
    case False
    with r c show ?thesis by (auto simp: at0_excess_shape[OF sh0])
  qed
  have step: "bloom_body s ?px0 = ?px1"
  proof (rule grid_eqI[OF bloom_body_shape[OF sh0] sh1])
    fix i j assume ij: "i < h" "j < w"
    have inf: "inflow s (at0 (excess s ?px0)) (int i) (int j) =
         (if (i = r \<and> (j = c + 1 \<or> j + 1 = c)) \<or> (j = c \<and> (i = r + 1 \<or> i + 1 = r))
          then real k else 0)"
      unfolding inflow_def E bl fcard_four by auto
    have "bloom_body s ?px0 ! i ! j =
          min (?px0 ! i ! j) ?F + of_int \<lfloor>inflow s (at0 (excess s ?px0)) (int i) (int j)\<rfloor>"
      by (rule bloom_body_nth[OF sh0 ij])
    also have "\<dots> = ?px1 ! i ! j"
      unfolding inf using ij Fpos by (auto simp: tabulate_nth)
    finally show "bloom_body s ?px0 ! i ! j = ?px1 ! i ! j" .
  qed
  have le1: "?px1 ! i ! j \<le> ?F" if "i < h" "j < w" for i j
    using that fw by (auto simp: tabulate_nth)
  then have ne1: "\<not> any_excess s ?px1"
    unfolding any_excess_iff[OF sh1] by (meson not_less)
  have at1: "at_most ?F ?px1"
    unfolding at_most_def list_all_length using le1 sh1 by (simp add: is_shape_iff)
  have "?F < ?px0 ! r ! c" using r c k by (simp add: tabulate_nth)
  with r c have ex0: "any_excess s ?px0"
    unfolding any_excess_iff[OF sh0] by (metis Suc_eq_plus1 Suc_lessD)
  have iter: "(bloom_body s ^^ n) ?px0 = ?px1" if "1 \<le> n" for n
  proof -
    from that obtain m where "n = Suc m" by (cases n) auto
    then have "(bloom_body s ^^ n) ?px0 = (bloom_body s ^^ m) (bloom_body s ?px0)"
      by (simp add: funpow_swap1)
    with step bloom_body_funpow_no_excess[OF sh1 ne1] show ?thesis by simp
  qed
  have loop: "bloom_loop s ?px0 = Some (bloom_body s ?px0)"
    unfolding bloom_loop_def
    using ex0 ne1 step by (simp add: while_option_unfold[of _ _ ?px0] while_option_unfold[of _ _ ?px1])
  from step iter at1 loop show ?thesis by simp
qed

theorem symmetric_bloom_witness:
  "bloom_body (small_sensor\<lparr>full_well := 4, bloom := {|''+x'', ''-x'', ''+y'', ''-y''|}\<rparr>)
     [[0, 0, 0], [0, 8, 0], [0, 0, 0]] = [[0, 1, 0], [1, 4, 1], [0, 1, 0]] \<and>
   bloom_loop (small_sensor\<lparr>full_well := 4, bloom := {|''+x'', ''-x'', ''+y'', ''-y''|}\<rparr>)
     [[0, 0, 0], [0, 8, 0], [0, 0, 0]] = Some [[0, 1, 0], [1, 4, 1], [0, 1, 0]]"
proof -
  let ?s = "small_sensor\<lparr>full_well := 4, bloom := {|''+x'', ''-x'', ''+y'', ''-y''|}\<rparr>"
  have u: "[0..<3] = [0, 1, 2]" by (simp add: upt_rec)
  have t0: "tabulate 3 3 (\<lambda>i j. if i = 1 \<and> j = 1 then full_well ?s + 4 * real 1 else 0) =
            [[0, 0, 0], [0, 8, 0], [0, 0, 0]]"
    by (simp add: tabulate_def u)
  have t1: "tabulate 3 3 (\<lambda>i j. if i = 1 \<and> j = 1 then full_well ?s
                               else if (i = 1 \<and> (j = 1 + 1 \<or> j + 1 = 1)) \<or>
                                       (j = 1 \<and> (i = 1 + 1 \<or> i + 1 = 1))
                                    then real 1 else 0) =
            [[0, 1, 0], [1, 4, 1], [0, 1, 0]]"
    by (simp add: tabulate_def u)
  have "bloom ?s = {|''+x'', ''-x'', ''+y'', ''-y''|}" "(0::nat) < 1"
    "4 * real 1 \<le> full_well ?s" "(1::nat) + 1 < 3"
    by simp_all
  from symmetric_bloom[OF this(1,2,3) \<open>(0::nat) < 1\<close> this(4) \<open>(0::nat) < 1\<close> this(4)]
  show ?thesis unfolding t0 t1 by simp
qed

subsection \<open>C10: a bias array of length one\<close>

text \<open>
  C10: when the construction reaches the bias check (the dimensions are not negative
  and \<open>hot_pixels\<close> has passed its shape check), a one-dimensional bias of length 1
  raises the bias shape error whenever \<open>width_px\<close> is not 1, while the scalar of the same
  value passes the bias check and is stored as it is.
\<close>

theorem bias_length_one_rejected:
  assumes "0 \<le> w" and "0 \<le> h" and "w \<noteq> 1"
    and "init_hot_pixels (nat w) (nat h) hp = Inr hpg"
  shows "init w h pl pp qe dc hp rn gn (A1 [b]) fw adc bl rt = Inl BiasShape \<and>
         (case init w h pl pp qe dc hp rn gn (A0 b) fw adc bl rt of
            Inl e \<Rightarrow> e = BloomNotSubset \<and> \<not> bl |\<subseteq>| bloom_directions
          | Inr s \<Rightarrow> bias s = BiasScalar b \<and> bl |\<subseteq>| bloom_directions)"
  using assms by (auto simp: init_def Let_def)

theorem bias_length_one_rejected_witness:
  "(0::int) \<le> 2 \<and> (2::int) \<noteq> 1 \<and>
   init_hot_pixels (nat 2) (nat 2) None = Inr [[1, 1], [1, 1]] \<and>
   init 2 2 (Number 10) (Number 10) 1 (\<lambda>T. 0) None 1 1 (A1 [100]) 2 101 {||} 0 = Inl BiasShape \<and>
   (case init 2 2 (Number 10) (Number 10) 1 (\<lambda>T. 0) None 1 1 (A0 100) 2 101 {||} 0 of
      Inl e \<Rightarrow> e = BloomNotSubset \<and> \<not> {||} |\<subseteq>| bloom_directions
    | Inr s \<Rightarrow> bias s = BiasScalar 100 \<and> {||} |\<subseteq>| bloom_directions)"
proof -
  have h: "init_hot_pixels (nat 2) (nat 2) None = Inr [[1, 1], [1, 1]]"
    by (simp add: init_hot_pixels_def eval_nat_numeral)
  from bias_length_one_rejected[where w = 2 and h = 2 and hp = None
      and hpg = "[[1, 1], [1, 1]]" and pl = "Number 10" and pp = "Number 10" and qe = 1
      and dc = "\<lambda>T. 0" and rn = 1 and gn = 1 and b = 100 and fw = 2 and adc = 101
      and bl = "{||}" and rt = 0, OF _ _ _ h] h
  show ?thesis by simp
qed

end
